theory Spec2Isabelle
  imports Complex_Main
begin


text \<open>
  A model of \<^verbatim>\<open>meterstick/models.py\<close>: the regression models that are fitted either
  locally or from aggregate statistics computed in SQL. Numbers are real numbers: the
  rounding of the floating-point arithmetic is not followed, and neither are \<^verbatim>\<open>nan\<close>
  entries of the input.
\<close>

section \<open>Errors and results\<close>

text \<open>
  The exceptions that \<^verbatim>\<open>models.py\<close> raises itself or lets through from the libraries
  it calls. A function that can raise returns \<open>error + 'a\<close>, with \<open>Inl\<close> for the exception.
  \<open>ValueError\<close> carries the fixed part of its message; \<open>MaybeBadSqlModeError\<close> carries
  the mode it recommends; \<open>OtherError\<close> stands for any other exception coming out of an
  injected callback (the query engine, a child metric).
\<close>

datatype error =
    ValueError string
  | KeyError
  | IndexError
  | LinAlgError
  | OverflowError
  | AttributeError
  | NotImplementedError
  | MaybeBadSqlModeError string
  | OtherError string

definition bind :: "error + 'a \<Rightarrow> ('a \<Rightarrow> error + 'b) \<Rightarrow> error + 'b" where
  "bind r f = (case r of Inl e \<Rightarrow> Inl e | Inr v \<Rightarrow> f v)"

text \<open>A list comprehension over calls that may raise: the first exception wins.\<close>

fun sequence :: "(error + 'a) list \<Rightarrow> error + 'a list" where
  "sequence [] = Inr []"
| "sequence (r # rs) =
     (case r of
        Inl e \<Rightarrow> Inl e
      | Inr v \<Rightarrow> (case sequence rs of Inl e \<Rightarrow> Inl e | Inr vs \<Rightarrow> Inr (v # vs)))"

section \<open>Output width of a metric: \<^verbatim>\<open>count_features\<close>\<close>

text \<open>
  The metric tree as \<^verbatim>\<open>count_features\<close> sees it: one constructor per branch of its
  \<^verbatim>\<open>isinstance\<close> chain, in the order of the chain, with the fields the branch reads.
  \<open>Model k children\<close> is a Model with \<^verbatim>\<open>m.k = k\<close>; \<open>MetricWithCI confidence children\<close>
  has \<^verbatim>\<open>m.confidence\<close> (\<open>None\<close> when unset); \<open>Quantile one_quantile quantile\<close> has the
  two attributes of that name; \<open>Metric\<close> is any other metric.
\<close>

datatype metric =
    Model nat "metric list"
  | MetricList "metric list"
  | MetricWithCI "real option" "metric list"
  | Operation "metric list"
  | CompositeMetric "metric list"
  | Quantile bool "real list"
  | Metric

text \<open>Python's truth value of an optional number: \<^verbatim>\<open>None\<close> and \<^verbatim>\<open>0\<close> are false.\<close>

definition truthy :: "real option \<Rightarrow> bool" where
  "truthy c = (case c of None \<Rightarrow> False | Some v \<Rightarrow> v \<noteq> 0)"

text \<open>\<^verbatim>\<open>max\<close> of a list; Python raises \<^verbatim>\<open>ValueError\<close> on the empty one.\<close>

definition py_max :: "nat list \<Rightarrow> error + nat" where
  "py_max ws = (case ws of [] \<Rightarrow> Inl (ValueError ''max() arg is an empty sequence'')
                | w # ws' \<Rightarrow> Inr (fold max ws' w))"

fun count_features :: "metric \<Rightarrow> error + nat" where
  "count_features (Model k cs) = Inr k"
| "count_features (MetricList ms) =
     bind (sequence (map count_features ms)) (\<lambda>ws. Inr (sum_list ws))"
| "count_features (MetricWithCI confidence cs) =
     (case cs of
        [] \<Rightarrow> Inl IndexError
      | c # _ \<Rightarrow>
          (if truthy confidence
           then bind (count_features c) (\<lambda>w. Inr (w * 3))
           else bind (count_features c) (\<lambda>w. Inr (w * 2))))"
| "count_features (Operation cs) =
     (case cs of [] \<Rightarrow> Inl IndexError | c # _ \<Rightarrow> count_features c)"
| "count_features (CompositeMetric cs) =
     bind (sequence (map count_features cs)) py_max"
| "count_features (Quantile one_quantile quantile) =
     (if one_quantile then Inr 1 else Inr (length quantile))"
| "count_features Metric = Inr 1"


section \<open>Mode dispatch: \<^verbatim>\<open>Model.compute_through_sql\<close>\<close>

text \<open>
  The classes of \<^verbatim>\<open>models.py\<close>, and the attributes of a model that the functions below
  read. \<open>alpha\<close> exists on Ridge and ElasticNet objects only and is read under
  \<^verbatim>\<open>isinstance(m, Ridge)\<close>; \<open>where_clause\<close> is the attribute \<^verbatim>\<open>where\<close>.
\<close>

datatype model_class = LinearRegression | Ridge | Lasso | ElasticNet | LogisticRegression

record model =
  cls :: model_class
  name :: string
  where_clause :: "string option"
  fit_intercept :: bool
  normalize :: bool
  alpha :: real

text \<open>
  What \<^verbatim>\<open>compute_through_sql\<close> calls and does not define: the methods inherited from
  \<^verbatim>\<open>operations.Operation\<close> and \<^verbatim>\<open>utils\<close>, with the arguments
  \<^verbatim>\<open>split_by\<close>, \<^verbatim>\<open>execute\<close> and \<^verbatim>\<open>mode\<close> fixed. \<open>'t\<close> is a table, \<open>'r\<close> a result
  frame. \<open>sql_where\<close> is \<^verbatim>\<open>sql.Sql(sql.Column('*', auto_alias=False), table, self.where)\<close>.
\<close>

record ('t, 'r) sql_env =
  all_computable_in_pure_sql :: bool
  compute_on_sql_mixed_mode :: "'t \<Rightarrow> error + 'r"
  compute_on_sql_magic_mode :: "'t \<Rightarrow> error + 'r"
  apply_name_tmpl :: "'r \<Rightarrow> error + 'r"
  sql_where :: "'t \<Rightarrow> string \<Rightarrow> 't"

text \<open>Truth value of an optional string: \<^verbatim>\<open>None\<close> and \<^verbatim>\<open>''\<close> are false.\<close>

definition truthy_str :: "string option \<Rightarrow> bool" where
  "truthy_str s = (case s of None \<Rightarrow> False | Some v \<Rightarrow> v \<noteq> [])"

definition mode_str :: "string option \<Rightarrow> string" where
  "mode_str mode = (case mode of None \<Rightarrow> ''None'' | Some v \<Rightarrow> v)"

text \<open>
  The method returns \<^verbatim>\<open>None\<close> when it falls off its last \<^verbatim>\<open>if\<close>, hence the option
  in the result.
\<close>

definition compute_through_sql ::
  "('t, 'r) sql_env \<Rightarrow> model \<Rightarrow> 't \<Rightarrow> string option \<Rightarrow> error + 'r option" where
  "compute_through_sql env self table mode =
     (if mode \<notin> {None, Some ''sql'', Some ''mixed'', Some ''magic''}
      then Inl (ValueError (''Mode '' @ mode_str mode @ '' is not supported!''))
      else if mode = Some ''sql''
      then Inl (ValueError (name self @ '' is not computable in pure SQL!''))
      else if mode = Some ''magic'' \<and> \<not> all_computable_in_pure_sql env
      then Inl (ValueError (''The \"magic\" mode of '' @ name self
                  @ '' requires all descendants to be computable in SQL!''))
      else
        let table = (if truthy_str (where_clause self)
                     then sql_where env table (the (where_clause self)) else table)
        in
          if mode = Some ''mixed'' \<or> \<not> truthy_str mode
          then (case compute_on_sql_mixed_mode env table of
                  Inr res \<Rightarrow> Inr (Some res)
                | Inl (MaybeBadSqlModeError use_mode) \<Rightarrow> Inl (MaybeBadSqlModeError use_mode)
                | Inl _ \<Rightarrow> Inl (MaybeBadSqlModeError ''magic''))
          else if all_computable_in_pure_sql env
          then (case bind (compute_on_sql_magic_mode env table) (apply_name_tmpl env) of
                  Inr res \<Rightarrow> Inr (Some res)
                | Inl _ \<Rightarrow> Inl (MaybeBadSqlModeError ''mixed''))
          else Inr None)"

text \<open>
  The dispatch as section 4.6 and section 7 of the specification word it, for comparison
  with the method: mixed mode (or no mode) attempts the pushdown path first, which is
  what the magic mode runs; on the fallback signal it evaluates the children through SQL
  and fits locally; the signal does not reach the caller when that succeeds and is raised
  again unchanged when that fails too.
\<close>

definition compute_through_sql_spec ::
  "('t, 'r) sql_env \<Rightarrow> model \<Rightarrow> 't \<Rightarrow> string option \<Rightarrow> error + 'r option" where
  "compute_through_sql_spec env self table mode =
     (if mode = Some ''mixed'' \<or> mode = None
      then
        let table = (if truthy_str (where_clause self)
                     then sql_where env table (the (where_clause self)) else table)
        in (case bind (compute_on_sql_magic_mode env table) (apply_name_tmpl env) of
              Inr res \<Rightarrow> Inr (Some res)
            | Inl _ \<Rightarrow>
                (case compute_on_sql_mixed_mode env table of
                   Inr res \<Rightarrow> Inr (Some res)
                 | Inl _ \<Rightarrow> Inl (MaybeBadSqlModeError ''mixed'')))
      else compute_through_sql env self table mode)"


section \<open>Logistic regression in magic mode: the preconditions\<close>

text \<open>
  \<^verbatim>\<open>class_weight\<close> of sklearn's model is \<^verbatim>\<open>None\<close>, the string \<^verbatim>\<open>'balanced'\<close> or a
  dictionary from class to weight.
\<close>

datatype class_weight = Balanced | Weights "(real \<times> real) list"

definition truthy_class_weight :: "class_weight option \<Rightarrow> bool" where
  "truthy_class_weight w =
     (case w of None \<Rightarrow> False | Some Balanced \<Rightarrow> True | Some (Weights d) \<Rightarrow> d \<noteq> [])"

text \<open>
  The attributes of a LogisticRegression object beyond those of a model; \<open>lr_c\<close> is the
  attribute \<^verbatim>\<open>c\<close>, and \<open>model_class_weight\<close> and \<open>model_multi_class\<close> are read
  from the sklearn object \<^verbatim>\<open>self.model\<close>.
\<close>

record logistic_regression = model +
  lr_penalty :: string
  lr_tol :: real
  lr_c :: real
  lr_intercept_scaling :: real
  model_class_weight :: "class_weight option"
  model_multi_class :: string
  lr_max_iter :: int
  lr_l1_ratio :: "real option"

text \<open>
  What is printed. \<open>CondWarning i\<close> is the warning that the condition number of X'X is
  \<open>i\<close> (the number as \<^verbatim>\<open>%i\<close> formats it); \<open>SparsityWarning\<close> is the warning that L1 and
  elastic-net penalties do not achieve sparsity; \<open>NotConverged\<close> is
  \<^verbatim>\<open>WARNING: Optimization didn't converge!\<close>; \<open>NotConvergedForSlice conds\<close> is
  \<^verbatim>\<open>WARNING: Optimization didn't converge for slice: \<close> followed by \<open>conds\<close>.
\<close>

datatype 'c warning =
    CondWarning int
  | SparsityWarning
  | NotConverged
  | NotConvergedForSlice "'c list"

text \<open>
  \<^verbatim>\<open>LogisticRegression.__init__\<close> stores \<^verbatim>\<open>intercept_scaling or 1\<close>.
\<close>

definition init_intercept_scaling :: "real option \<Rightarrow> real" where
  "init_intercept_scaling s = (if truthy s then the s else 1)"

text \<open>\<^verbatim>\<open>Series.nunique()\<close>: the number of distinct values.\<close>

definition nunique :: "real list \<Rightarrow> nat" where
  "nunique ys = length (remdups ys)"

text \<open>
  \<^verbatim>\<open>LogisticRegression.compute_on_sql_magic_mode\<close> up to line 683. \<open>y\<close> is what
  \<^verbatim>\<open>self.y.compute_on_sql(table, self.group_by, execute)\<close> gives: an exception, or the
  first column of the frame. \<open>rest\<close> is the rest of the method (lines 685 to 851): the
  queries and Newton's method. The result is what was printed and what was returned or
  raised.
\<close>

definition logistic_compute_on_sql_magic_mode ::
  "logistic_regression \<Rightarrow> error + real list \<Rightarrow> (error + 'r) \<Rightarrow>
     'c warning list \<times> (error + 'r)" where
  "logistic_compute_on_sql_magic_mode self y rest =
     (if truthy_class_weight (model_class_weight self)
      then ([], Inl (ValueError ''Magic mode doesn't support class_weight!''))
      else if model_multi_class self = ''multinomial''
      then ([], Inl (ValueError ''Magic mode doesn't support multi_class!''))
      else if lr_penalty self = ''elasticnet'' \<and>
              (if truthy (lr_l1_ratio self)
               then \<not> (0 \<le> the (lr_l1_ratio self) \<and> the (lr_l1_ratio self) \<le> 1)
               else True)
      then ([], Inl (ValueError ''l1_ratio must be between 0 and 1''))
      else if lr_intercept_scaling self \<noteq> 1
      then ([], Inl (ValueError ''intercept_scaling is not supported in magic mode!''))
      else
        let printed = (if lr_penalty self \<in> {''l1'', ''elasticnet''} then [SparsityWarning] else [])
        in (case y of
              Inl e \<Rightarrow> (printed, Inl e)
            | Inr ys \<Rightarrow>
                if nunique ys \<noteq> 2
                then (printed, Inl (ValueError ''Magic mode only support two classes''))
                else (printed, rest)))"

subsection \<open>Concrete settings\<close>

text \<open>
  Two concrete settings for the properties below. In \<open>env_mixed_fails\<close> every descendant
  is computable in SQL and the magic path would return the frame \<open>1\<close>, while the mixed
  path raises an exception of the query engine. In \<open>env_mixed_ok\<close> the mixed path returns
  the frame \<open>2\<close>. \<open>ols\<close> is a linear regression with no filter.
\<close>

definition env_mixed_fails :: "(nat, nat) sql_env" where
  "env_mixed_fails =
     \<lparr>all_computable_in_pure_sql = True,
      compute_on_sql_mixed_mode = (\<lambda>t. Inl (OtherError ''query too large'')),
      compute_on_sql_magic_mode = (\<lambda>t. Inr 1),
      apply_name_tmpl = Inr,
      sql_where = (\<lambda>t w. t)\<rparr>"

definition env_mixed_ok :: "(nat, nat) sql_env" where
  "env_mixed_ok =
     \<lparr>all_computable_in_pure_sql = False,
      compute_on_sql_mixed_mode = (\<lambda>t. Inr 2),
      compute_on_sql_magic_mode = (\<lambda>t. Inl NotImplementedError),
      apply_name_tmpl = Inr,
      sql_where = (\<lambda>t w. t)\<rparr>"

definition ols :: model where
  "ols = \<lparr>cls = LinearRegression, name = ''OLS(y ~ x)'', where_clause = None,
          fit_intercept = True, normalize = False, alpha = 0\<rparr>"

text \<open>
  A logistic regression with the defaults of the constructor, but for an elastic-net
  penalty with \<^verbatim>\<open>l1_ratio=0\<close>.
\<close>

definition elasticnet_l1_ratio_0 :: logistic_regression where
  "elasticnet_l1_ratio_0 =
     \<lparr>cls = LogisticRegression, name = ''LogisticRegression(y ~ x)'', where_clause = None,
      fit_intercept = True, normalize = False, alpha = 0,
      lr_penalty = ''elasticnet'', lr_tol = 1 / 10000, lr_c = 1,
      lr_intercept_scaling = init_intercept_scaling (Some 1),
      model_class_weight = None, model_multi_class = ''auto'', lr_max_iter = 100,
      lr_l1_ratio = Some 0\<rparr>"

section \<open>Symmetric matrices from packed upper triangles\<close>

type_synonym matrix = "real list list"

text \<open>
  \<^verbatim>\<open>int(np.floor(m ** 0.5))\<close> for a natural number \<open>m\<close>: the largest \<open>k\<close> with
  \<open>k * k \<le> m\<close>, found by counting down from \<open>m\<close>.
\<close>

primrec floor_sqrt_upto :: "nat \<Rightarrow> nat \<Rightarrow> nat" where
  "floor_sqrt_upto m 0 = 0"
| "floor_sqrt_upto m (Suc k) = (if Suc k * Suc k \<le> m then Suc k else floor_sqrt_upto m k)"

definition floor_sqrt :: "nat \<Rightarrow> nat" where
  "floor_sqrt m = floor_sqrt_upto m m"

definition zeros :: "nat \<Rightarrow> nat \<Rightarrow> matrix" where
  "zeros n m = replicate n (replicate m 0)"

text \<open>\<^verbatim>\<open>np.triu_indices(n)\<close>: the positions on and above the diagonal, row by row.\<close>

definition triu_indices :: "nat \<Rightarrow> (nat \<times> nat) list" where
  "triu_indices n = [(i, j). i \<leftarrow> [0..<n], j \<leftarrow> [i..<n]]"

definition assign :: "(nat \<times> nat) \<times> real \<Rightarrow> matrix \<Rightarrow> matrix" where
  "assign pv M = (case pv of ((i, j), v) \<Rightarrow> M[i := (M ! i)[j := v]])"

text \<open>\<^verbatim>\<open>M[idx] = vals\<close> for a list of positions and as many values.\<close>

definition assign_all :: "matrix \<Rightarrow> (nat \<times> nat) list \<Rightarrow> real list \<Rightarrow> matrix" where
  "assign_all M idx vals = fold assign (zip idx vals) M"

definition mat_T :: "matrix \<Rightarrow> matrix" where
  "mat_T M = map (\<lambda>j. map (\<lambda>row. row ! j) M) [0..<length M]"

definition diagonal :: "matrix \<Rightarrow> real list" where
  "diagonal M = map (\<lambda>i. M ! i ! i) [0..<length M]"

definition diag :: "real list \<Rightarrow> matrix" where
  "diag d = map (\<lambda>i. map (\<lambda>j. if i = j then d ! i else 0) [0..<length d]) [0..<length d]"

definition identity :: "nat \<Rightarrow> matrix" where
  "identity n = map (\<lambda>i. map (\<lambda>j. if i = j then 1 else 0) [0..<n]) [0..<n]"

definition mat_add :: "matrix \<Rightarrow> matrix \<Rightarrow> matrix" where
  "mat_add A B = map2 (map2 (+)) A B"

definition mat_sub :: "matrix \<Rightarrow> matrix \<Rightarrow> matrix" where
  "mat_sub A B = map2 (map2 (-)) A B"

definition mat_scale :: "real \<Rightarrow> matrix \<Rightarrow> matrix" where
  "mat_scale a M = map (map ((*) a)) M"

definition symmetrize_triangular :: "real list \<Rightarrow> error + matrix" where
  "symmetrize_triangular tril_elements =
     (let n = floor_sqrt (2 * length tril_elements) in
      if real (n * (n + 1)) / 2 \<noteq> real (length tril_elements)
      then Inl (ValueError ''The elements cannot form a symmetric matrix!'')
      else
        let sym = assign_all (zeros n n) (triu_indices n) tril_elements
        in Inr (mat_sub (mat_add sym (mat_T sym)) (diag (diagonal sym))))"

subsection \<open>Notions for the properties\<close>

text \<open>
  Notions used to state what \<^verbatim>\<open>symmetrize_triangular\<close> returns: the entry at a
  position, an \<open>n\<close> by \<open>n\<close> list of rows, the value that a packed list gives a position
  of the upper triangle, the filled upper triangle, and the symmetric matrix made of it.
\<close>

definition entry :: "matrix \<Rightarrow> nat \<times> nat \<Rightarrow> real" where
  "entry M p = M ! fst p ! snd p"

definition square :: "nat \<Rightarrow> matrix \<Rightarrow> bool" where
  "square n M = (length M = n \<and> (\<forall>r \<in> set M. length r = n))"

definition packed_at :: "nat \<Rightarrow> real list \<Rightarrow> nat \<times> nat \<Rightarrow> real" where
  "packed_at n vals p = (case map_of (zip (triu_indices n) vals) p of None \<Rightarrow> 0 | Some v \<Rightarrow> v)"

definition upper :: "nat \<Rightarrow> real list \<Rightarrow> matrix" where
  "upper n vals = assign_all (zeros n n) (triu_indices n) vals"

definition symmetric_of :: "matrix \<Rightarrow> matrix" where
  "symmetric_of U = mat_sub (mat_add U (mat_T U)) (diag (diagonal U))"

section \<open>Coefficients from sufficient statistics\<close>

text \<open>
  A row of sufficient statistics is a pandas Series: a value for each column name it has.
  The solver functions accept such a row, or a DataFrame, which is a list of rows.
\<close>

type_synonym series = "string \<Rightarrow> real option"

datatype frame = DataFrame "series list" | Series series

definition lookup :: "series \<Rightarrow> string \<Rightarrow> error + real" where
  "lookup s col = (case s col of None \<Rightarrow> Inl KeyError | Some v \<Rightarrow> Inr v)"

text \<open>\<^verbatim>\<open>s[cols]\<close> for a list of column names.\<close>

definition lookups :: "series \<Rightarrow> string list \<Rightarrow> error + real list" where
  "lookups s cols = sequence (map (lookup s) cols)"

text \<open>The decimal digits of a number, as \<^verbatim>\<open>f'{i}'\<close> writes them.\<close>

function str_nat :: "nat \<Rightarrow> string" where
  "str_nat i = (if i < 10 then [char_of (48 + i)]
                else str_nat (i div 10) @ [char_of (48 + i mod 10)])"
  by pat_completeness auto
termination
  by (relation "measure id") auto

definition x_col :: "nat \<Rightarrow> string" where
  "x_col i = ''x'' @ str_nat i"

definition xx_col :: "nat \<Rightarrow> nat \<Rightarrow> string" where
  "xx_col i j = ''x'' @ str_nat i @ ''x'' @ str_nat j"

definition xy_col :: "nat \<Rightarrow> string" where
  "xy_col i = ''x'' @ str_nat i @ ''y''"

definition construct_matrix_from_elements ::
  "frame \<Rightarrow> string list \<Rightarrow> bool \<Rightarrow> error + matrix \<times> real list" where
  "construct_matrix_from_elements sufficient_stats_elements xs fit_intercept' =
     bind (case sufficient_stats_elements of
             DataFrame rows \<Rightarrow>
               if length rows > 1 then Inl (ValueError ''Only support 1D input!'')
               else (case rows of [] \<Rightarrow> Inl IndexError | r # _ \<Rightarrow> Inr r)
           | Series s \<Rightarrow> Inr s)
       (\<lambda>s.
          let n = length xs;
              x_t_x_cols = (if fit_intercept' then map x_col [0..<n] else [])
                           @ concat (map (\<lambda>i. map (\<lambda>j. xx_col i j) [i..<n]) [0..<n]);
              x_t_y_cols = (if fit_intercept' then [''y''] else []) @ map xy_col [0..<n]
          in bind (lookups s x_t_x_cols) (\<lambda>x_t_x_elements.
             bind (lookups s x_t_y_cols) (\<lambda>x_t_y.
             bind (symmetrize_triangular
                     (if fit_intercept' then 1 # x_t_x_elements else x_t_x_elements))
               (\<lambda>x_t_x. Inr (x_t_x, x_t_y)))))"

text \<open>
  The two functions of \<^verbatim>\<open>numpy.linalg\<close> that the solvers call. The condition number
  may be infinite; \<^verbatim>\<open>cond\<close> raises LinAlgError on an empty matrix and \<^verbatim>\<open>solve\<close> on
  a singular one.
\<close>

datatype cond_number = Finite real | Infinite

record linalg =
  cond :: "matrix \<Rightarrow> error + cond_number"
  solve :: "matrix \<Rightarrow> real list \<Rightarrow> error + real list"

text \<open>\<^verbatim>\<open>'%i' % c\<close> writes \<open>c\<close> cut to an integer, and raises OverflowError at infinity.\<close>

definition int_of :: "real \<Rightarrow> int" where
  "int_of v = (if 0 \<le> v then \<lfloor>v\<rfloor> else \<lceil>v\<rceil>)"

text \<open>
  Lines 453 to 457, which lines 482 to 486 repeat: the condition number of X'X, and the
  warning when it exceeds 20. The result is what was printed, and the exception if any.
\<close>

definition check_cond :: "linalg \<Rightarrow> matrix \<Rightarrow> 'c warning list \<times> (error + unit)" where
  "check_cond np x_t_x =
     (case cond np x_t_x of
        Inl e \<Rightarrow> ([], Inl e)
      | Inr (Finite v) \<Rightarrow> if v > 20 then ([CondWarning (int_of v)], Inr ()) else ([], Inr ())
      | Inr Infinite \<Rightarrow> ([], Inl OverflowError))"

text \<open>\<^verbatim>\<open>n.replace('macro_', '$').strip('`')\<close>; the backquote is character 96.\<close>

function replace_macro :: "string \<Rightarrow> string" where
  "replace_macro s =
     (if s = [] then []
      else if take 6 s = ''macro_'' then CHR ''$'' # replace_macro (drop 6 s)
      else hd s # replace_macro (tl s))"
  by pat_completeness auto
termination
  by (relation "measure length") auto

definition strip_backquote :: "string \<Rightarrow> string" where
  "strip_backquote s =
     rev (dropWhile (\<lambda>ch. ch = char_of (96 :: nat))
            (rev (dropWhile (\<lambda>ch. ch = char_of (96 :: nat)) s)))"

definition clean_name :: "string \<Rightarrow> string" where
  "clean_name n = strip_backquote (replace_macro n)"

text \<open>
  \<^verbatim>\<open>pd.DataFrame([coef], columns=xs)\<close>: a frame of one row, given as its column names
  and its values; pandas raises ValueError when their numbers differ.
\<close>

type_synonym coef_frame = "string list \<times> real list"

definition data_frame :: "real list \<Rightarrow> string list \<Rightarrow> error + coef_frame" where
  "data_frame coef columns =
     (if length coef \<noteq> length columns then Inl (ValueError ''columns passed'')
      else Inr (columns, coef))"

text \<open>\<^verbatim>\<open>a.dot(b)\<close> for two vectors; numpy raises ValueError when their lengths differ.\<close>

definition dot :: "real list \<Rightarrow> real list \<Rightarrow> error + real" where
  "dot a b = (if length a \<noteq> length b then Inl (ValueError ''shapes not aligned'')
              else Inr (sum_list (map2 (*) a b)))"

definition compute_coef_for_normalize_ridge ::
  "linalg \<Rightarrow> series \<Rightarrow> string list \<Rightarrow> model \<Rightarrow> 'c warning list \<times> (error + coef_frame)" where
  "compute_coef_for_normalize_ridge np sufficient_stats xs m =
     (let n = length xs in
      case sequence (map (\<lambda>i.
             bind (lookup sufficient_stats (xy_col i)) (\<lambda>xiy.
             bind (lookup sufficient_stats (x_col i)) (\<lambda>xi.
             bind (lookup sufficient_stats ''y'') (\<lambda>y.
             bind (sequence (map (\<lambda>j.
                     bind (lookup sufficient_stats (xx_col i j)) (\<lambda>xixj.
                     bind (lookup sufficient_stats (x_col i)) (\<lambda>xi.
                     bind (lookup sufficient_stats (x_col j)) (\<lambda>xj.
                     Inr (xixj - xi * xj))))) [i..<n]))
               (\<lambda>row. Inr (xiy - xi * y, row)))))) [0..<n]) of
        Inl e \<Rightarrow> ([], Inl e)
      | Inr rows \<Rightarrow>
          let x_t_y = map fst rows; x_t_x_elements = concat (map snd rows) in
          (case symmetrize_triangular x_t_x_elements of
             Inl e \<Rightarrow> ([], Inl e)
           | Inr x_t_x0 \<Rightarrow>
               let x_t_x = (if cls m = Ridge
                            then mat_add x_t_x0 (mat_scale (alpha m) (diag (diagonal x_t_x0)))
                            else x_t_x0)
               in (case check_cond np x_t_x of
                     (printed, Inl e) \<Rightarrow> (printed, Inl e)
                   | (printed, Inr _) \<Rightarrow>
                       (printed,
                        bind (solve np x_t_x x_t_y) (\<lambda>coef.
                        bind (case sufficient_stats ''y'' of
                                None \<Rightarrow> Inl AttributeError | Some y \<Rightarrow> Inr y) (\<lambda>y.
                        bind (lookups sufficient_stats (map x_col [0..<n])) (\<lambda>means.
                        bind (dot coef means) (\<lambda>d.
                        data_frame ((y - d) # coef)
                          (''intercept'' # map clean_name xs)))))))))"

definition compute_ridge_coefs ::
  "linalg \<Rightarrow> frame \<Rightarrow> string list \<Rightarrow> model \<Rightarrow> 'c warning list \<times> (error + coef_frame)" where
  "compute_ridge_coefs np sufficient_stats xs m =
     (case (case sufficient_stats of
              DataFrame rows \<Rightarrow> (case rows of [] \<Rightarrow> Inl IndexError | r # _ \<Rightarrow> Inr r)
            | Series s \<Rightarrow> Inr s) of
        Inl e \<Rightarrow> ([], Inl e)
      | Inr s \<Rightarrow>
          if fit_intercept m \<and> normalize m
          then compute_coef_for_normalize_ridge np s xs m
          else
            (case bind (construct_matrix_from_elements (Series s) xs (fit_intercept m))
                    (\<lambda>(x_t_x, x_t_y).
                       if cls m = Ridge
                       then bind (lookup s ''n_obs'') (\<lambda>n_obs.
                              let penalty = identity (length x_t_y);
                                  penalty = (if fit_intercept m
                                             then assign ((0, 0), 0) penalty else penalty)
                              in Inr (mat_add x_t_x (mat_scale (alpha m / n_obs) penalty),
                                      x_t_y))
                       else Inr (x_t_x, x_t_y)) of
               Inl e \<Rightarrow> ([], Inl e)
             | Inr (x_t_x, x_t_y) \<Rightarrow>
                 (case check_cond np x_t_x of
                    (printed, Inl e) \<Rightarrow> (printed, Inl e)
                  | (printed, Inr _) \<Rightarrow>
                      (printed,
                       bind (solve np x_t_x x_t_y) (\<lambda>coef.
                       data_frame coef
                         ((if fit_intercept m then [''intercept''] else [])
                          @ map clean_name xs))))))"

subsection \<open>Notions for the properties\<close>

text \<open>
  Notions used to state what the solvers compute. \<open>stats_columns n fit\<close> lists the columns
  of a row of sufficient statistics for \<open>n\<close> features, as
  \<^verbatim>\<open>get_sufficient_stats_elements\<close> documents them, without \<^verbatim>\<open>n_obs\<close>. \<open>val s col\<close> is the
  value of a column that the row has. \<open>x_t_x_entry s fit (i, j)\<close>, for \<open>i \<le> j\<close>, is the
  entry of X'X at row \<open>i\<close> and column \<open>j\<close>, and \<open>x_t_y_entry s fit i\<close> the entry of X'y at
  \<open>i\<close>: with an intercept, row and column 0 belong to the constant feature 1.
  \<open>features n fit\<close> is the size of the system, \<open>x_t_x_of\<close> and \<open>x_t_y_of\<close> are X'X and
  X'y in full, and \<open>penalty_of k fit\<close> is the identity matrix of the ridge penalty, with
  its first entry set to zero when there is an intercept.
\<close>

definition stats_columns :: "nat \<Rightarrow> bool \<Rightarrow> string list" where
  "stats_columns n fit =
     (if fit then map x_col [0..<n] else [])
     @ map (\<lambda>(i, j). xx_col i j) (triu_indices n)
     @ (if fit then [''y''] else [])
     @ map xy_col [0..<n]"

definition val :: "series \<Rightarrow> string \<Rightarrow> real" where
  "val s col = the (s col)"







text \<open>
  The centred moments of the normalised solve: the entry of X'X at \<open>(i, j)\<close>, for
  \<open>i \<le> j\<close>, and the entry of X'y at \<open>i\<close>.
\<close>

definition centred_x_t_x_entry :: "series \<Rightarrow> nat \<times> nat \<Rightarrow> real" where
  "centred_x_t_x_entry s p =
     val s (xx_col (fst p) (snd p)) - val s (x_col (fst p)) * val s (x_col (snd p))"

definition centred_x_t_y_entry :: "series \<Rightarrow> nat \<Rightarrow> real" where
  "centred_x_t_y_entry s i = val s (xy_col i) - val s (x_col i) * val s ''y''"






subsection \<open>A library on diagonal matrices, and concrete rows\<close>

text \<open>
  \<^verbatim>\<open>numpy.linalg\<close> on diagonal matrices, where both functions have closed forms: the
  condition number in the 2-norm is the largest absolute diagonal entry over the
  smallest one, infinite when the smallest is zero, and the solution of the system
  divides each right-hand side by its diagonal entry. This is the library that the
  concrete examples below run on; on any other matrix it reports that it does not model
  the library.
\<close>

definition is_diagonal :: "matrix \<Rightarrow> bool" where
  "is_diagonal M =
     list_all (\<lambda>i. length (M ! i) = length M
                \<and> list_all (\<lambda>j. i = j \<or> M ! i ! j = 0) [0..<length M]) [0..<length M]"

definition diagonal_linalg :: linalg where
  "diagonal_linalg =
     \<lparr>cond = (\<lambda>M.
         if M = [] then Inl LinAlgError
         else if is_diagonal M
         then (let d = map abs (diagonal M) in
               if Min (set d) = 0 then Inr Infinite
               else Inr (Finite (Max (set d) / Min (set d))))
         else Inl (OtherError ''not a diagonal matrix'')),
      solve = (\<lambda>M b.
         if length b \<noteq> length M then Inl (ValueError ''dimension mismatch'')
         else if is_diagonal M
         then (if 0 \<in> set (diagonal M) then Inl LinAlgError
               else Inr (map2 (/) b (diagonal M)))
         else Inl (OtherError ''not a diagonal matrix''))\<rparr>"


definition stats_raw :: series where
  "stats_raw =
     map_of [(''x0'', 1), (''x0x0'', 3), (''y'', 3), (''x0y'', 7), (''n_obs'', 4)]"


definition ridge :: "real \<Rightarrow> bool \<Rightarrow> bool \<Rightarrow> model" where
  "ridge a fit nrm =
     \<lparr>cls = Ridge, name = ''Ridge(y ~ x)'', where_clause = None,
      fit_intercept = fit, normalize = nrm, alpha = a\<rparr>"


section \<open>Linear and ridge regression in magic mode\<close>








section \<open>Newton's method\<close>

text \<open>\<^verbatim>\<open>abs(delta).max()\<close>; numpy raises ValueError on an empty array.\<close>

definition max_abs :: "real list \<Rightarrow> error + real" where
  "max_abs delta =
     (case delta of
        [] \<Rightarrow> Inl (ValueError ''zero-size array to reduction operation'')
      | d # ds \<Rightarrow> Inr (fold max (map abs ds) \<bar>d\<bar>))"

text \<open>
  \<^verbatim>\<open>coef[i] -= delta\<close> on a row of an array: element by element when the lengths agree,
  the single element from every entry when \<open>delta\<close> has length 1 (broadcasting), and a
  ValueError otherwise.
\<close>

definition isub :: "real list \<Rightarrow> real list \<Rightarrow> error + real list" where
  "isub row delta =
     (if length delta = length row then Inr (map2 (-) row delta)
      else if length delta = 1 then Inr (map (\<lambda>v. v - hd delta) row)
      else Inl (ValueError ''operands could not be broadcast together''))"

definition nth_checked :: "'a list \<Rightarrow> nat \<Rightarrow> error + 'a" where
  "nth_checked xs i = (if i < length xs then Inr (xs ! i) else Inl IndexError)"

text \<open>
  The two callbacks of \<^verbatim>\<open>newtons_method\<close>, each called with the coefficients and the
  flags of convergence. Each gives one entry for each slice or raises; the entries of
  the converged slices are not read.
\<close>

record callbacks =
  hess :: "real list list \<Rightarrow> bool list \<Rightarrow> error + matrix list"
  grads :: "real list list \<Rightarrow> bool list \<Rightarrow> error + real list list"

text \<open>
  The inner loop \<^verbatim>\<open>for i in range(n_slice)\<close> over the slices that are left, on the
  arrays \<^verbatim>\<open>coef\<close> and \<^verbatim>\<open>converged\<close>.
\<close>

fun update_slices ::
  "linalg \<Rightarrow> real \<Rightarrow> matrix list \<Rightarrow> real list list \<Rightarrow> nat list \<Rightarrow>
     real list list \<times> bool list \<Rightarrow> error + real list list \<times> bool list" where
  "update_slices np tol h j [] (coef, converged) = Inr (coef, converged)"
| "update_slices np tol h j (i # rest) (coef, converged) =
     (if \<not> converged ! i
      then bind (nth_checked h i) (\<lambda>hi.
           bind (nth_checked j i) (\<lambda>ji.
           bind (solve np hi ji) (\<lambda>delta.
           bind (max_abs delta) (\<lambda>largest.
           bind (isub (coef ! i) delta) (\<lambda>row.
             update_slices np tol h j rest
               (coef[i := row],
                if largest < tol then converged[i := True] else converged))))))
      else update_slices np tol h j rest (coef, converged))"

text \<open>
  One pass of the outer loop, its body up to the test \<^verbatim>\<open>all(converged)\<close>: the two
  callbacks, then the inner loop over all slices.
\<close>

definition newton_pass ::
  "linalg \<Rightarrow> callbacks \<Rightarrow> real \<Rightarrow> real list list \<Rightarrow> bool list \<Rightarrow>
     error + real list list \<times> bool list" where
  "newton_pass np cb tol coef conv =
     bind (hess cb coef conv) (\<lambda>h.
     bind (grads cb coef conv) (\<lambda>j.
     update_slices np tol h j [0..<length coef] (coef, conv)))"

text \<open>
  What a call leaves behind: \<open>passes\<close>, the number of passes of the outer loop that
  were begun, and \<open>flags\<close>, the flags at the end, are local to the function;
  \<open>warnings\<close> is its output and \<open>outcome\<close> the array it returns or the exception.
\<close>

record 'c newton_result =
  passes :: nat
  flags :: "bool list"
  warnings :: "'c warning list"
  outcome :: "error + real list list"

text \<open>
  The outer loop with \<open>k\<close> passes left, and what follows it when the passes are used up:
  the warning, which shows \<^verbatim>\<open>np.array(conds)[~converged]\<close> unless there is exactly one
  slice, and the coefficients as they are. Indexing \<^verbatim>\<open>conds\<close> by flags of another
  length raises IndexError.
\<close>

fun newton_loop ::
  "linalg \<Rightarrow> callbacks \<Rightarrow> real \<Rightarrow> 'c list \<Rightarrow> nat \<Rightarrow> real list list \<Rightarrow> bool list \<Rightarrow>
     'c newton_result" where
  "newton_loop np cb tol conds 0 coef conv =
     (if length coef = 1
      then \<lparr>passes = 0, flags = conv, warnings = [NotConverged], outcome = Inr coef\<rparr>
      else if length conds \<noteq> length conv
      then \<lparr>passes = 0, flags = conv, warnings = [], outcome = Inl IndexError\<rparr>
      else \<lparr>passes = 0, flags = conv,
             warnings = [NotConvergedForSlice
                          (map fst (filter (\<lambda>(cond', done). \<not> done) (zip conds conv)))],
             outcome = Inr coef\<rparr>)"
| "newton_loop np cb tol conds (Suc k) coef conv =
     (case newton_pass np cb tol coef conv of
        Inl e \<Rightarrow> \<lparr>passes = 1, flags = conv, warnings = [], outcome = Inl e\<rparr>
      | Inr (coef', conv') \<Rightarrow>
          if list_all (\<lambda>done. done) conv'
          then \<lparr>passes = 1, flags = conv', warnings = [], outcome = Inr coef'\<rparr>
          else (let r = newton_loop np cb tol conds k coef' conv'
                in r\<lparr>passes := Suc (passes r)\<rparr>))"

definition newtons_method ::
  "linalg \<Rightarrow> real list list \<Rightarrow> callbacks \<Rightarrow> real \<Rightarrow> int \<Rightarrow> 'c list \<Rightarrow> 'c newton_result" where
  "newtons_method np coef cb tol max_iter' conds =
     newton_loop np cb tol conds (nat max_iter') coef (replicate (length coef) False)"

text \<open>
  The arrays \<^verbatim>\<open>coef\<close> and \<^verbatim>\<open>converged\<close> after \<open>n\<close> passes in a row from a given state,
  with no test of \<^verbatim>\<open>all(converged)\<close> in between: the \<open>n\<close>-th iterate, or the exception of
  the first pass that raises. The properties below say which iterate the method returns.
\<close>

fun after_passes ::
  "linalg \<Rightarrow> callbacks \<Rightarrow> real \<Rightarrow> nat \<Rightarrow> real list list \<Rightarrow> bool list \<Rightarrow>
     error + real list list \<times> bool list" where
  "after_passes np cb tol 0 coef conv = Inr (coef, conv)"
| "after_passes np cb tol (Suc n) coef conv =
     bind (newton_pass np cb tol coef conv)
       (\<lambda>(coef', conv'). after_passes np cb tol n coef' conv')"

text \<open>
  The warning after the last pass, for \<open>n\<close> slices, as a function of \<^verbatim>\<open>conds\<close> and the
  flags.
\<close>

definition not_converged_warning :: "nat \<Rightarrow> 'c list \<Rightarrow> bool list \<Rightarrow> 'c warning" where
  "not_converged_warning n conds conv =
     (if n = 1 then NotConverged
      else NotConvergedForSlice (map fst (filter (\<lambda>(cond', done). \<not> done) (zip conds conv))))"

text \<open>
  Callbacks with one coefficient \<open>b\<close>: the Hessian is 1 and the gradient is
  \<open>b - 3\<close>, as for the function \<open>(b - 3)\<^sup>2 / 2\<close>, so that the first step reaches 3 and the
  second step is 0. \<open>stuck\<close> has the Hessian 1 and the gradient 1 whatever \<open>b\<close> is, so that
  every step is 1.
\<close>

definition quadratic :: callbacks where
  "quadratic =
     \<lparr>hess = (\<lambda>coef conv. Inr (map (\<lambda>row. [[1]]) coef)),
      grads = (\<lambda>coef conv. Inr (map (\<lambda>row. map (\<lambda>b. b - 3) row) coef))\<rparr>"

definition stuck :: callbacks where
  "stuck =
     \<lparr>hess = (\<lambda>coef conv. Inr (map (\<lambda>row. [[1]]) coef)),
      grads = (\<lambda>coef conv. Inr (map (\<lambda>row. [1]) coef))\<rparr>"

section \<open>Properties\<close>

subsection \<open>Output width\<close>

lemma sequence_map_widths:
  "list_all2 (\<lambda>m w. f m = Inr w) ms ws \<Longrightarrow> sequence (map f ms) = Inr ws"
  by (induction ms ws rule: list_all2_induct) simp_all

lemma py_max_Cons: "py_max (w # ws) = Inr (Max (set (w # ws)))"
  unfolding py_max_def by (simp only: list.case Max.set_eq_fold)

lemma py_max_Max: "ws \<noteq> [] \<Longrightarrow> py_max ws = Inr (Max (set ws))"
  by (cases ws) (simp_all only: py_max_Cons, simp)

text \<open>
  Claim C6, as the code has it. A list metric reports the sum of the widths of its
  children; a composite metric reports the largest of them (not their sum); a metric
  with confidence intervals reports three times the width of its first child when
  \<^verbatim>\<open>confidence\<close> is a nonzero number and twice that width otherwise; any other operation
  reports the width of its first child; a model reports \<^verbatim>\<open>k\<close>; a quantile metric
  reports 1 for a single quantile and the number of quantiles otherwise; every other
  metric reports 1.
\<close>

theorem count_features_widths:
  "(list_all2 (\<lambda>m w. count_features m = Inr w) ms ws \<longrightarrow>
      count_features (MetricList ms) = Inr (sum_list ws))
   \<and> (list_all2 (\<lambda>m w. count_features m = Inr w) ms ws \<and> ms \<noteq> [] \<longrightarrow>
      count_features (CompositeMetric ms) = Inr (Max (set ws)))
   \<and> (count_features c = Inr w \<longrightarrow>
      count_features (MetricWithCI confidence (c # cs)) =
        Inr (if truthy confidence then w * 3 else w * 2))
   \<and> count_features (Operation (c # cs)) = count_features c
   \<and> count_features (Model k cs) = Inr k
   \<and> count_features (Quantile True quantile) = Inr 1
   \<and> count_features (Quantile False quantile) = Inr (length quantile)
   \<and> count_features Metric = Inr 1"
proof -
  have a: "count_features (MetricList ms) = Inr (sum_list ws)"
    if "list_all2 (\<lambda>m w. count_features m = Inr w) ms ws"
    using sequence_map_widths [OF that] by (simp add: bind_def)
  have b: "count_features (CompositeMetric ms) = Inr (Max (set ws))"
    if h: "list_all2 (\<lambda>m w. count_features m = Inr w) ms ws" and ne: "ms \<noteq> []"
  proof -
    from h ne have "ws \<noteq> []" by (auto simp: list_all2_Nil2)
    then show ?thesis
      using sequence_map_widths [OF h] by (simp add: bind_def py_max_Max)
  qed
  have c: "count_features (MetricWithCI confidence (c # cs)) =
        Inr (if truthy confidence then w * 3 else w * 2)"
    if "count_features c = Inr w"
    using that by (simp add: bind_def)
  show ?thesis using a b c by simp
qed

text \<open>
  The theorem at a list metric, a composite metric and two confidence-interval metrics
  over a two-quantile metric.
\<close>

theorem count_features_widths_witness:
  "count_features (MetricList [Quantile False [1/4, 3/4], Metric]) = Inr 3
   \<and> count_features (CompositeMetric [Quantile False [1/4, 3/4], Metric]) = Inr 2
   \<and> count_features (MetricWithCI (Some (9/10)) [Quantile False [1/4, 3/4]]) = Inr 6
   \<and> count_features (MetricWithCI None [Quantile False [1/4, 3/4]]) = Inr 4"
proof -
  let ?q = "Quantile False [1/4, 3/4]"
  have h: "list_all2 (\<lambda>m w. count_features m = Inr w) [?q, Metric] [2, 1]"
    by simp
  have q: "count_features ?q = Inr 2" by simp
  note t = count_features_widths [where ms = "[?q, Metric]" and ws = "[2, 1]" and c = ?q and w = 2 and cs = "[]"]
  have m: "Max (set [2, 1::nat]) = 2" by simp
  show ?thesis
    using t [where confidence = "Some (9/10)"] t [where confidence = None] h q m
    by (simp add: truthy_def)
qed

text \<open>
  Claim C6 as stated fails: a composite metric over two metrics of width 2 has width 2,
  where the sum of the widths of its children is 4.
\<close>

theorem count_features_composite_counterexample:
  "count_features (Quantile False [1/4, 3/4]) = Inr 2
   \<and> count_features (CompositeMetric [Quantile False [1/4, 3/4], Quantile False [1/4, 3/4]])
       = Inr 2
   \<and> count_features (CompositeMetric [Quantile False [1/4, 3/4], Quantile False [1/4, 3/4]])
       \<noteq> Inr (2 + 2)"
  by (simp add: bind_def py_max_def)

subsection \<open>The integer square root\<close>

lemma floor_sqrt_upto_le: "floor_sqrt_upto m b * floor_sqrt_upto m b \<le> m"
  by (induction b) auto

lemma floor_sqrt_upto_max: "j \<le> b \<Longrightarrow> j * j \<le> m \<Longrightarrow> j \<le> floor_sqrt_upto m b"
proof (induction b)
  case 0
  then show ?case by simp
next
  case (Suc b)
  show ?case
  proof (cases "Suc b * Suc b \<le> m")
    case True
    with Suc.prems show ?thesis by simp
  next
    case False
    with Suc.prems have "j \<noteq> Suc b" by auto
    with Suc.prems have "j \<le> b" by simp
    with Suc False show ?thesis by simp
  qed
qed

lemma floor_sqrt_le: "floor_sqrt m * floor_sqrt m \<le> m"
  by (simp add: floor_sqrt_def floor_sqrt_upto_le)

lemma floor_sqrt_max: assumes "j * j \<le> m" shows "j \<le> floor_sqrt m"
proof -
  have "j \<le> j * j" by (cases j) simp_all
  from this assms have "j \<le> m" by (rule le_trans)
  with assms show ?thesis by (simp add: floor_sqrt_def floor_sqrt_upto_max)
qed

lemma floor_sqrt_unique:
  assumes "k * k \<le> m" and "m < Suc k * Suc k"
  shows "floor_sqrt m = k"
proof (rule antisym)
  show "k \<le> floor_sqrt m" using assms(1) by (rule floor_sqrt_max)
  show "floor_sqrt m \<le> k"
  proof (rule ccontr)
    assume "\<not> floor_sqrt m \<le> k"
    then have "Suc k \<le> floor_sqrt m" by simp
    from this this have "Suc k * Suc k \<le> floor_sqrt m * floor_sqrt m" by (rule mult_le_mono)
    with floor_sqrt_le [of m] assms(2) show False by simp
  qed
qed

lemma floor_sqrt_lt: "m < Suc (floor_sqrt m) * Suc (floor_sqrt m)"
proof (rule ccontr)
  assume "\<not> m < Suc (floor_sqrt m) * Suc (floor_sqrt m)"
  then have "Suc (floor_sqrt m) * Suc (floor_sqrt m) \<le> m" by simp
  then have "Suc (floor_sqrt m) \<le> floor_sqrt m" by (rule floor_sqrt_max)
  then show False by simp
qed

lemma floor_sqrt_real: "floor_sqrt m = nat \<lfloor>sqrt (real m)\<rfloor>"
proof -
  let ?k = "floor_sqrt m"
  have "real (?k * ?k) \<le> real m" using floor_sqrt_le [of m] by (simp only: of_nat_le_iff)
  then have "sqrt (real (?k * ?k)) \<le> sqrt (real m)" by (simp only: real_sqrt_le_iff)
  then have lo: "real ?k \<le> sqrt (real m)" by simp
  have "real m < real (Suc ?k * Suc ?k)" using floor_sqrt_lt [of m] by (simp only: of_nat_less_iff)
  then have "sqrt (real m) < sqrt (real (Suc ?k * Suc ?k))" by (simp only: real_sqrt_less_iff)
  moreover have "sqrt (real (Suc ?k * Suc ?k)) = real (Suc ?k)"
    by (simp only: of_nat_mult real_sqrt_abs2 abs_of_nat)
  ultimately have "sqrt (real m) < real (Suc ?k)" by (simp only:)
  then have hi: "sqrt (real m) < real ?k + 1" by simp
  have "\<lfloor>sqrt (real m)\<rfloor> = int ?k"
    using lo hi by (intro floor_unique) simp_all
  then show ?thesis by simp
qed

lemma floor_sqrt_triangular: "floor_sqrt (n * (n + 1)) = n"
  by (rule floor_sqrt_unique) simp_all


subsection \<open>The positions of the upper triangle\<close>

lemma triu_indices_Suc:
  "triu_indices (Suc n) =
     map (Pair 0) [0..<Suc n] @ map (\<lambda>p. (Suc (fst p), Suc (snd p))) (triu_indices n)"
proof -
  have a: "[0..<Suc n] = 0 # map Suc [0..<n]"
    by (simp only: map_Suc_upt upt_conv_Cons [OF zero_less_Suc])
  have b: "map (Pair (Suc i)) [Suc i..<Suc n] =
           map (\<lambda>p. (Suc (fst p), Suc (snd p))) (map (Pair i) [i..<n])" for i
    by (simp only: map_Suc_upt [symmetric] map_map o_def fst_conv snd_conv)
  have "triu_indices (Suc n) =
        concat (map (\<lambda>i. map (Pair i) [i..<Suc n]) (0 # map Suc [0..<n]))"
    unfolding triu_indices_def by (simp only: a [symmetric])
  also have "\<dots> = map (Pair 0) [0..<Suc n] @
        concat (map (\<lambda>i. map (Pair (Suc i)) [Suc i..<Suc n]) [0..<n])"
    by (simp only: list.map concat.simps map_map o_def)
  also have "concat (map (\<lambda>i. map (Pair (Suc i)) [Suc i..<Suc n]) [0..<n]) =
        map (\<lambda>p. (Suc (fst p), Suc (snd p))) (triu_indices n)"
    unfolding triu_indices_def by (simp only: b map_concat map_map o_def)
  finally show ?thesis .
qed

lemma set_triu_indices: "set (triu_indices n) = {(i, j). i \<le> j \<and> j < n}"
  by (fastforce simp: triu_indices_def)

lemma distinct_triu_indices: "distinct (triu_indices n)"
proof (induction n)
  case 0
  show ?case by (simp add: triu_indices_def)
next
  case (Suc n)
  have "inj (\<lambda>p::nat \<times> nat. (Suc (fst p), Suc (snd p)))"
    by (auto simp: inj_on_def prod_eq_iff)
  then have "distinct (map (\<lambda>p. (Suc (fst p), Suc (snd p))) (triu_indices n))"
    using Suc by (simp add: distinct_map inj_on_subset [OF _ subset_UNIV])
  moreover have "distinct (map (Pair (0::nat)) [0..<Suc n])"
    by (simp only: distinct_map distinct_upt) (simp add: inj_on_def)
  ultimately show ?case
    by (auto simp: triu_indices_Suc simp del: upt_Suc)
qed

lemma length_triu_indices: "2 * length (triu_indices n) = n * (n + 1)"
  by (induction n) (simp_all add: triu_indices_Suc, simp add: triu_indices_def)

lemma triu_indices_concat:
  "concat (map (\<lambda>i. map (f i) [i..<n]) [0..<n]) = map (\<lambda>(i, j). f i j) (triu_indices n)"
  unfolding triu_indices_def by (simp add: map_concat o_def)


subsection \<open>Assignment at a list of positions\<close>


lemma square_zeros: "square n (zeros n n)"
  by (simp add: square_def zeros_def)

lemma entry_zeros: "fst q < n \<Longrightarrow> snd q < n \<Longrightarrow> entry (zeros n n) q = 0"
  by (simp add: entry_def zeros_def)

lemma square_assign: "square n M \<Longrightarrow> square n (assign pv M)"
proof -
  assume sq: "square n M"
  obtain i j v where pv: "pv = ((i, j), v)" by (metis prod.collapse)
  show ?thesis
  proof (cases "i < n")
    case True
    with sq have "length ((M ! i)[j := v]) = n" by (simp add: square_def)
    with sq show ?thesis
      unfolding square_def assign_def pv
      by (auto dest!: subsetD [OF set_update_subset_insert])
  next
    case False
    with sq show ?thesis by (simp add: square_def assign_def pv list_update_beyond)
  qed
qed

lemma entry_assign:
  assumes "square n M" and "fst q < n" and "snd q < n" and "fst p < n" and "snd p < n"
  shows "entry (assign (p, v) M) q = (if q = p then v else entry M q)"
proof -
  obtain i j where p: "p = (i, j)" by (cases p)
  obtain i' j' where q: "q = (i', j')" by (cases q)
  from assms have len: "length M = n" "length (M ! i) = n"
    by (simp_all add: square_def p)
  with assms show ?thesis
    by (simp add: entry_def assign_def p q nth_list_update)
qed

lemma fold_assign:
  assumes "length idx = length vals" and "distinct idx"
    and "\<forall>p \<in> set idx. fst p < n \<and> snd p < n" and "square n M"
    and "fst q < n" and "snd q < n"
  shows "square n (fold assign (zip idx vals) M) \<and>
         entry (fold assign (zip idx vals) M) q =
           (case map_of (zip idx vals) q of None \<Rightarrow> entry M q | Some v \<Rightarrow> v)"
  using assms
proof (induction idx vals arbitrary: M rule: list_induct2)
  case Nil
  then show ?case by simp
next
  case (Cons p idx v vals)
  let ?M = "assign (p, v) M"
  have sq: "square n ?M" using Cons.prems by (simp add: square_assign)
  have ih: "square n (fold assign (zip idx vals) ?M) \<and>
         entry (fold assign (zip idx vals) ?M) q =
           (case map_of (zip idx vals) q of None \<Rightarrow> entry ?M q | Some v \<Rightarrow> v)"
    using Cons.prems sq by (intro Cons.IH) simp_all
  have e: "entry ?M q = (if q = p then v else entry M q)"
    using Cons.prems by (intro entry_assign [where n = n]) simp_all
  have none: "map_of (zip idx vals) p = None"
    using Cons.prems Cons.hyps by (simp add: map_of_zip_is_None)
  show ?case
  proof (cases "q = p")
    case True
    with ih e none show ?thesis by simp
  next
    case False
    with ih e show ?thesis by (simp split: option.split)
  qed
qed

lemma triu_indices_bounds: "\<forall>p \<in> set (triu_indices n). fst p < n \<and> snd p < n"
  by (auto simp: set_triu_indices)

lemma assign_all_triu:
  assumes "length vals = length (triu_indices n)" and "i < n" and "j < n"
  shows "square n (assign_all (zeros n n) (triu_indices n) vals)"
    and "entry (assign_all (zeros n n) (triu_indices n) vals) (i, j) =
           (case map_of (zip (triu_indices n) vals) (i, j) of None \<Rightarrow> 0 | Some v \<Rightarrow> v)"
  using fold_assign [OF assms(1) [symmetric] distinct_triu_indices triu_indices_bounds
      square_zeros, of "(i, j)"] assms(2,3)
  by (simp_all add: assign_all_def entry_zeros split: option.split)


subsection \<open>Entries of sums, transposes and diagonals\<close>

lemma square_map2:
  assumes "square n A" and "square n B"
  shows "square n (map2 (map2 f) A B)"
proof -
  have "length (map2 f a b) = n" if "(a, b) \<in> set (zip A B)" for a b
    using assms set_zip_leftD [OF that] set_zip_rightD [OF that] by (simp add: square_def)
  with assms show ?thesis by (auto simp: square_def)
qed

lemma nth_map2_map2:
  assumes "square n A" and "square n B" and "i < n" and "j < n"
  shows "map2 (map2 f) A B ! i ! j = f (A ! i ! j) (B ! i ! j)"
  using assms by (simp add: square_def)

lemma square_mat_T: "square n M \<Longrightarrow> square n (mat_T M)"
  by (simp add: square_def mat_T_def)

lemma nth_mat_T: "square n M \<Longrightarrow> i < n \<Longrightarrow> j < n \<Longrightarrow> mat_T M ! i ! j = M ! j ! i"
  by (simp add: square_def mat_T_def)

lemma square_diag: "length d = n \<Longrightarrow> square n (diag d)"
  by (simp add: square_def diag_def)

lemma nth_diag:
  "length d = n \<Longrightarrow> i < n \<Longrightarrow> j < n \<Longrightarrow> diag d ! i ! j = (if i = j then d ! i else 0)"
  by (simp add: diag_def)

lemma length_diagonal: "square n M \<Longrightarrow> length (diagonal M) = n"
  by (simp add: square_def diagonal_def)

lemma nth_diagonal: "square n M \<Longrightarrow> i < n \<Longrightarrow> diagonal M ! i = M ! i ! i"
  by (simp add: square_def diagonal_def)

lemma symmetrize_entries:
  assumes sq: "square n U" and i: "i < n" and j: "j < n"
  shows "mat_sub (mat_add U (mat_T U)) (diag (diagonal U)) ! i ! j =
           U ! i ! j + U ! j ! i - (if i = j then U ! i ! i else 0)"
    and "square n (mat_sub (mat_add U (mat_T U)) (diag (diagonal U)))"
proof -
  have a: "square n (mat_add U (mat_T U))"
    unfolding mat_add_def using sq by (intro square_map2 square_mat_T)
  have d: "square n (diag (diagonal U))"
    using sq by (intro square_diag length_diagonal)
  show "square n (mat_sub (mat_add U (mat_T U)) (diag (diagonal U)))"
    unfolding mat_sub_def using a d by (rule square_map2)
  have "mat_sub (mat_add U (mat_T U)) (diag (diagonal U)) ! i ! j =
        mat_add U (mat_T U) ! i ! j - diag (diagonal U) ! i ! j"
    unfolding mat_sub_def using a d i j by (rule nth_map2_map2)
  also have "mat_add U (mat_T U) ! i ! j = U ! i ! j + mat_T U ! i ! j"
    unfolding mat_add_def using sq square_mat_T [OF sq] i j by (rule nth_map2_map2)
  also have "mat_T U ! i ! j = U ! j ! i" using sq i j by (rule nth_mat_T)
  also have "diag (diagonal U) ! i ! j = (if i = j then U ! i ! i else 0)"
    using length_diagonal [OF sq] i j nth_diagonal [OF sq i] by (auto simp: nth_diag)
  finally show "mat_sub (mat_add U (mat_T U)) (diag (diagonal U)) ! i ! j =
           U ! i ! j + U ! j ! i - (if i = j then U ! i ! i else 0)" .
qed


subsection \<open>The symmetric matrix of a packed list\<close>

lemma symmetrize_triangular_Inr:
  assumes "length vals = length (triu_indices n)"
  shows "floor_sqrt (2 * length vals) = n"
    and "symmetrize_triangular vals = Inr (symmetric_of (upper n vals))"
proof -
  have l: "2 * length vals = n * (n + 1)"
    using assms length_triu_indices [of n] by simp
  show n: "floor_sqrt (2 * length vals) = n"
    by (simp only: l floor_sqrt_triangular)
  have "real (n * (n + 1)) / 2 = real (length vals)"
    using l by (metis nonzero_mult_div_cancel_left of_nat_mult of_nat_numeral zero_neq_numeral)
  then show "symmetrize_triangular vals = Inr (symmetric_of (upper n vals))"
    unfolding symmetrize_triangular_def n Let_def upper_def symmetric_of_def by (simp only: if_False simp_thms)
qed

lemma symmetrize_triangular_Inl:
  assumes "floor_sqrt (2 * length vals) * (floor_sqrt (2 * length vals) + 1) \<noteq> 2 * length vals"
  shows "symmetrize_triangular vals =
           Inl (ValueError ''The elements cannot form a symmetric matrix!'')"
proof -
  let ?n = "floor_sqrt (2 * length vals)"
  have "real (?n * (?n + 1)) / 2 \<noteq> real (length vals)"
  proof
    assume "real (?n * (?n + 1)) / 2 = real (length vals)"
    then have "real (?n * (?n + 1)) = real (2 * length vals)" by simp
    then have "?n * (?n + 1) = 2 * length vals" by (simp only: of_nat_eq_iff)
    with assms show False by simp
  qed
  then show ?thesis
    unfolding symmetrize_triangular_def Let_def by (simp only: if_True simp_thms)
qed

lemma upper_entries:
  assumes len: "length vals = length (triu_indices n)" and i: "i < n" and j: "j < n"
  shows "square n (upper n vals)"
    and "upper n vals ! i ! j = packed_at n vals (i, j)"
    and "j < i \<Longrightarrow> upper n vals ! i ! j = 0"
proof -
  show "square n (upper n vals)"
    unfolding upper_def using len i j by (rule assign_all_triu)
  show e: "upper n vals ! i ! j = packed_at n vals (i, j)"
    using assign_all_triu(2) [OF len i j] by (simp add: upper_def packed_at_def entry_def)
  show "upper n vals ! i ! j = 0" if "j < i"
  proof -
    have "(i, j) \<notin> set (triu_indices n)" using that by (simp add: set_triu_indices)
    then have "map_of (zip (triu_indices n) vals) (i, j) = None"
      using len by (simp add: map_of_zip_is_None)
    then show ?thesis by (simp add: e packed_at_def)
  qed
qed

lemma symmetric_of_upper:
  assumes len: "length vals = length (triu_indices n)" and i: "i < n" and j: "j < n"
  shows "square n (symmetric_of (upper n vals))"
    and "symmetric_of (upper n vals) ! i ! j = packed_at n vals (min i j, max i j)"
proof -
  note u = upper_entries [OF len]
  have sq: "square n (upper n vals)" using i j by (rule u(1))
  show "square n (symmetric_of (upper n vals))"
    unfolding symmetric_of_def using sq i j by (rule symmetrize_entries(2))
  have e: "symmetric_of (upper n vals) ! i ! j =
        upper n vals ! i ! j + upper n vals ! j ! i - (if i = j then upper n vals ! i ! i else 0)"
    unfolding symmetric_of_def using sq i j by (rule symmetrize_entries(1))
  consider "i < j" | "i = j" | "j < i" by linarith
  then show "symmetric_of (upper n vals) ! i ! j = packed_at n vals (min i j, max i j)"
  proof cases
    case 1
    then show ?thesis using e u(2) [OF i j] u(3) [OF j i 1] by (simp add: min_def max_def)
  next
    case 2
    then show ?thesis using e u(2) [OF i j] by simp
  next
    case 3
    then show ?thesis using e u(2) [OF j i] u(3) [OF i j 3] by (simp add: min_def max_def)
  qed
qed

lemma packed_at_nth:
  assumes "length vals = length (triu_indices n)" and "k < length vals"
  shows "packed_at n vals (triu_indices n ! k) = vals ! k"
  using map_of_zip_nth [OF assms(1) [symmetric] distinct_triu_indices assms(2)]
  by (simp add: packed_at_def)

lemma packed_at_map:
  assumes "p \<in> set (triu_indices n)"
  shows "packed_at n (map g (triu_indices n)) p = g p"
  using assms by (simp add: packed_at_def map_of_zip_map)


lemma map_upper_triu:
  assumes len: "length vals = length (triu_indices n)"
  shows "map (\<lambda>(i, j). upper n vals ! i ! j) (triu_indices n) = vals"
    and "map (\<lambda>(i, j). symmetric_of (upper n vals) ! i ! j) (triu_indices n) = vals"
proof -
  have *: "upper n vals ! i ! j = vals ! k \<and> symmetric_of (upper n vals) ! i ! j = vals ! k"
    if k: "k < length vals" and p: "triu_indices n ! k = (i, j)" for k i j
  proof -
    have "(i, j) \<in> set (triu_indices n)"
      using k len p by (metis nth_mem)
    then have b: "i \<le> j" "i < n" "j < n" by (auto simp: set_triu_indices)
    have "packed_at n vals (i, j) = vals ! k"
      using packed_at_nth [OF len k] p by simp
    then show ?thesis
      using upper_entries(2) [OF len b(2,3)] symmetric_of_upper(2) [OF len b(2,3)] b(1)
      by (simp add: min_def max_def)
  qed
  show "map (\<lambda>(i, j). upper n vals ! i ! j) (triu_indices n) = vals"
    using len * by (intro nth_equalityI) (auto split: prod.split)
  show "map (\<lambda>(i, j). symmetric_of (upper n vals) ! i ! j) (triu_indices n) = vals"
    using len * by (intro nth_equalityI) (auto split: prod.split)
qed

text \<open>
  Claim C1. \<^verbatim>\<open>symmetrize_triangular(packed)\<close> takes \<open>n\<close> as the floor of the square root
  of twice the length of \<open>packed\<close>. When \<open>n (n + 1) / 2\<close> is not that length it raises
  the ValueError. Otherwise it returns an \<open>n\<close> by \<open>n\<close> matrix \<open>M = U + U\<^sup>T - diag U\<close>,
  where \<open>U\<close> holds \<open>packed\<close> on and above its diagonal, row by row from left to right,
  and zeros below; \<open>M\<close> is symmetric and its upper triangle, read row by row, is
  \<open>packed\<close>. In particular \<open>[1, 2, 3]\<close> gives \<open>[[1, 2], [2, 3]]\<close> and \<open>[1, 2]\<close> raises.
\<close>

theorem symmetrize_triangular_correct:
  "floor_sqrt (2 * length packed) = nat \<lfloor>sqrt (real (2 * length packed))\<rfloor>
   \<and> (let n = floor_sqrt (2 * length packed) in
        if n * (n + 1) div 2 \<noteq> length packed
        then symmetrize_triangular packed =
               Inl (ValueError ''The elements cannot form a symmetric matrix!'')
        else (\<exists>U M. symmetrize_triangular packed = Inr M
               \<and> length U = n \<and> (\<forall>i<n. length (U ! i) = n)
               \<and> map (\<lambda>(i, j). U ! i ! j) [(i, j). i \<leftarrow> [0..<n], j \<leftarrow> [i..<n]] = packed
               \<and> (\<forall>i<n. \<forall>j<i. U ! i ! j = 0)
               \<and> length M = n \<and> (\<forall>i<n. length (M ! i) = n)
               \<and> (\<forall>i<n. \<forall>j<n. M ! i ! j =
                     U ! i ! j + U ! j ! i - (if i = j then U ! i ! i else 0))
               \<and> (\<forall>i<n. \<forall>j<n. M ! i ! j = M ! j ! i)
               \<and> map (\<lambda>(i, j). M ! i ! j) [(i, j). i \<leftarrow> [0..<n], j \<leftarrow> [i..<n]] = packed))
   \<and> symmetrize_triangular [1, 2, 3] = Inr [[1, 2], [2, 3]]
   \<and> symmetrize_triangular [1, 2] =
        Inl (ValueError ''The elements cannot form a symmetric matrix!'')"
proof (intro conjI)
  show "floor_sqrt (2 * length packed) = nat \<lfloor>sqrt (real (2 * length packed))\<rfloor>"
    by (rule floor_sqrt_real)
  show "symmetrize_triangular [1, 2, 3] = Inr [[1, 2], [2, 3]]"
    by code_simp
  show "symmetrize_triangular [1, 2] =
        Inl (ValueError ''The elements cannot form a symmetric matrix!'')"
    by code_simp
  define n where "n = floor_sqrt (2 * length packed)"
  have even: "even (n * (n + 1))" by simp
  have main: "if n * (n + 1) div 2 \<noteq> length packed
        then symmetrize_triangular packed =
               Inl (ValueError ''The elements cannot form a symmetric matrix!'')
        else (\<exists>U M. symmetrize_triangular packed = Inr M
               \<and> length U = n \<and> (\<forall>i<n. length (U ! i) = n)
               \<and> map (\<lambda>(i, j). U ! i ! j) (triu_indices n) = packed
               \<and> (\<forall>i<n. \<forall>j<i. U ! i ! j = 0)
               \<and> length M = n \<and> (\<forall>i<n. length (M ! i) = n)
               \<and> (\<forall>i<n. \<forall>j<n. M ! i ! j =
                     U ! i ! j + U ! j ! i - (if i = j then U ! i ! i else 0))
               \<and> (\<forall>i<n. \<forall>j<n. M ! i ! j = M ! j ! i)
               \<and> map (\<lambda>(i, j). M ! i ! j) (triu_indices n) = packed)"
  proof (cases "n * (n + 1) div 2 = length packed")
    case False
    then have "n * (n + 1) \<noteq> 2 * length packed" by auto
    then show ?thesis
      using False symmetrize_triangular_Inl [of packed] by (simp add: n_def)
  next
    case True
    then have "n * (n + 1) = 2 * length packed"
      using dvd_mult_div_cancel [OF even] by (simp only:)
    then have len: "length packed = length (triu_indices n)"
      using length_triu_indices [of n] by simp
    let ?U = "upper n packed"
    let ?M = "symmetric_of ?U"
    have sqU: "square n ?U" if "i < n" for i using upper_entries(1) [OF len that that] .
    have sqM: "square n ?M" if "i < n" for i using symmetric_of_upper(1) [OF len that that] .
    have lenU: "length ?U = n"
    proof (cases n)
      case 0
      then show ?thesis by (simp add: upper_def assign_all_def triu_indices_def zeros_def)
    next
      case (Suc m)
      then show ?thesis using sqU [of 0] by (simp add: square_def)
    qed
    have lenM: "length ?M = n"
      using lenU by (simp add: symmetric_of_def mat_sub_def mat_add_def mat_T_def diag_def diagonal_def)
    have "symmetrize_triangular packed = Inr ?M"
      using len by (rule symmetrize_triangular_Inr)
    moreover have "\<forall>i<n. length (?U ! i) = n" using sqU by (auto simp: square_def)
    moreover have "\<forall>i<n. length (?M ! i) = n" using sqM by (auto simp: square_def)
    moreover have "map (\<lambda>(i, j). ?U ! i ! j) (triu_indices n) = packed"
      using len by (rule map_upper_triu)
    moreover have "map (\<lambda>(i, j). ?M ! i ! j) (triu_indices n) = packed"
      using len by (rule map_upper_triu)
    moreover have "\<forall>i<n. \<forall>j<i. ?U ! i ! j = 0"
      using upper_entries(3) [OF len] by auto
    moreover have "\<forall>i<n. \<forall>j<n. ?M ! i ! j =
                     ?U ! i ! j + ?U ! j ! i - (if i = j then ?U ! i ! i else 0)"
      using symmetrize_entries(1) [of n ?U] sqU by (auto simp: symmetric_of_def)
    moreover have "\<forall>i<n. \<forall>j<n. ?M ! i ! j = ?M ! j ! i"
      using symmetric_of_upper(2) [OF len] by (simp add: min.commute max.commute)
    ultimately show ?thesis using True lenU lenM by auto
  qed
  show "let n = floor_sqrt (2 * length packed) in
        if n * (n + 1) div 2 \<noteq> length packed
        then symmetrize_triangular packed =
               Inl (ValueError ''The elements cannot form a symmetric matrix!'')
        else (\<exists>U M. symmetrize_triangular packed = Inr M
               \<and> length U = n \<and> (\<forall>i<n. length (U ! i) = n)
               \<and> map (\<lambda>(i, j). U ! i ! j) [(i, j). i \<leftarrow> [0..<n], j \<leftarrow> [i..<n]] = packed
               \<and> (\<forall>i<n. \<forall>j<i. U ! i ! j = 0)
               \<and> length M = n \<and> (\<forall>i<n. length (M ! i) = n)
               \<and> (\<forall>i<n. \<forall>j<n. M ! i ! j =
                     U ! i ! j + U ! j ! i - (if i = j then U ! i ! i else 0))
               \<and> (\<forall>i<n. \<forall>j<n. M ! i ! j = M ! j ! i)
               \<and> map (\<lambda>(i, j). M ! i ! j) [(i, j). i \<leftarrow> [0..<n], j \<leftarrow> [i..<n]] = packed)"
    using main unfolding n_def [symmetric] Let_def triu_indices_def .
qed


text \<open>The theorem at the packed list \<open>[4, 5, 6]\<close>, where \<open>n = 2\<close>.\<close>

theorem symmetrize_triangular_correct_witness:
  "\<exists>M. symmetrize_triangular [4, 5, 6] = Inr M \<and> length M = 2
        \<and> [M ! 0 ! 0, M ! 0 ! 1, M ! 1 ! 1] = [4, 5, 6] \<and> M ! 1 ! 0 = M ! 0 ! 1"
proof -
  have n: "floor_sqrt (2 * length [4, 5, 6 :: real]) = 2" by code_simp
  have idx: "[(i, j). i \<leftarrow> [0..<2], j \<leftarrow> [i..<2]] = [(0, 0), (0, 1), (1 :: nat, 1 :: nat)]"
    by code_simp
  have "\<exists>U M. symmetrize_triangular [4, 5, 6] = Inr M
               \<and> length U = 2 \<and> (\<forall>i<2. length (U ! i) = 2)
               \<and> map (\<lambda>(i, j). U ! i ! j) [(0, 0), (0, 1), (1, 1)] = [4, 5, 6]
               \<and> (\<forall>i<2. \<forall>j<i. U ! i ! j = 0)
               \<and> length M = 2 \<and> (\<forall>i<2. length (M ! i) = 2)
               \<and> (\<forall>i<2. \<forall>j<2. M ! i ! j =
                     U ! i ! j + U ! j ! i - (if i = j then U ! i ! i else 0))
               \<and> (\<forall>i<2. \<forall>j<2. M ! i ! j = M ! j ! i)
               \<and> map (\<lambda>(i, j). M ! i ! j) [(0, 0), (0, 1), (1, 1)] = [4, 5, 6]"
    using symmetrize_triangular_correct [of "[4, 5, 6]"]
    unfolding n Let_def idx by simp
  then show ?thesis
    apply (elim exE conjE)
    subgoal for U M
      apply (rule exI [of _ M])
      apply simp
      done
    done
qed

subsection \<open>Mode dispatch\<close>

text \<open>
  Claim C5, as the code has it. With mode \<^verbatim>\<open>'mixed'\<close> or no mode the method runs the
  mixed path only, on the table filtered by \<^verbatim>\<open>where\<close>: it returns what that path
  returns, raises a MaybeBadSqlModeError of that path again unchanged, and replaces any
  other exception of that path by \<^verbatim>\<open>MaybeBadSqlModeError('magic')\<close>. The magic path is
  not attempted: the outcome is the same whatever the magic path would do and whether or
  not the descendants are computable in SQL. Mode \<^verbatim>\<open>'sql'\<close> raises a ValueError at once,
  and so does a mode that is none of \<^verbatim>\<open>None\<close>, \<^verbatim>\<open>'sql'\<close>, \<^verbatim>\<open>'mixed'\<close>,
  \<^verbatim>\<open>'magic'\<close>.
\<close>

theorem compute_through_sql_modes:
  "(mode = Some ''mixed'' \<or> mode = None \<longrightarrow>
      compute_through_sql env self table mode =
        (case compute_on_sql_mixed_mode env
                (if truthy_str (where_clause self)
                 then sql_where env table (the (where_clause self)) else table) of
           Inr res \<Rightarrow> Inr (Some res)
         | Inl (MaybeBadSqlModeError use_mode) \<Rightarrow> Inl (MaybeBadSqlModeError use_mode)
         | Inl _ \<Rightarrow> Inl (MaybeBadSqlModeError ''magic''))
      \<and> compute_through_sql
            (env\<lparr>compute_on_sql_magic_mode := magic, all_computable_in_pure_sql := b\<rparr>)
            self table mode
          = compute_through_sql env self table mode)
   \<and> compute_through_sql env self table (Some ''sql'') =
        Inl (ValueError (name self @ '' is not computable in pure SQL!''))
   \<and> (mode \<notin> {None, Some ''sql'', Some ''mixed'', Some ''magic''} \<longrightarrow>
        compute_through_sql env self table mode =
          Inl (ValueError (''Mode '' @ mode_str mode @ '' is not supported!'')))"
  by (auto simp: compute_through_sql_def truthy_str_def Let_def)

text \<open>
  The theorem in mixed mode with a mixed path that succeeds, with no mode and a mixed
  path that fails, and at the unknown mode \<^verbatim>\<open>'local'\<close>.
\<close>

theorem compute_through_sql_modes_witness:
  "compute_through_sql env_mixed_ok ols 0 (Some ''mixed'') = Inr (Some 2)
   \<and> compute_through_sql env_mixed_fails ols 0 None = Inl (MaybeBadSqlModeError ''magic'')
   \<and> compute_through_sql
        (env_mixed_fails\<lparr>compute_on_sql_magic_mode := (\<lambda>t. Inl LinAlgError),
                         all_computable_in_pure_sql := False\<rparr>) ols 0 None
      = Inl (MaybeBadSqlModeError ''magic'')
   \<and> compute_through_sql env_mixed_ok ols 0 (Some ''local'') =
        Inl (ValueError ''Mode local is not supported!'')"
  using compute_through_sql_modes
      [where mode = "Some ''mixed''" and env = env_mixed_ok and self = ols and table = 0]
    compute_through_sql_modes
      [where mode = None and env = env_mixed_fails and self = ols and table = 0
         and magic = "\<lambda>t. Inl LinAlgError" and b = False]
    compute_through_sql_modes
      [where mode = "Some ''local''" and env = env_mixed_ok and self = ols and table = 0]
  by (simp add: env_mixed_ok_def env_mixed_fails_def ols_def truthy_str_def mode_str_def)

text \<open>
  Claim C5 as stated fails. Where the magic path would return the frame \<open>1\<close> and the
  mixed path raises, mixed mode raises \<^verbatim>\<open>MaybeBadSqlModeError('magic')\<close>; a dispatch that
  attempted the pushdown path first would return the frame.
\<close>

theorem compute_through_sql_mixed_counterexample:
  "compute_through_sql env_mixed_fails ols 0 (Some ''mixed'') =
     Inl (MaybeBadSqlModeError ''magic'')
   \<and> compute_through_sql_spec env_mixed_fails ols 0 (Some ''mixed'') = Inr (Some 1)
   \<and> compute_on_sql_magic_mode env_mixed_fails 0 = Inr 1"
  by (simp add: compute_through_sql_def compute_through_sql_spec_def env_mixed_fails_def
      ols_def truthy_str_def bind_def)


subsection \<open>Preconditions of the logistic regression in magic mode\<close>

text \<open>
  Claim C4 at an elastic-net penalty with \<^verbatim>\<open>l1_ratio = 0\<close> and a response with the two
  values 0 and 1: every precondition of the claim holds, \<open>0\<close> being in \<open>[0, 1]\<close>, and the
  method raises the ValueError about \<^verbatim>\<open>l1_ratio\<close>, because \<^verbatim>\<open>not self.l1_ratio\<close> is
  true of \<open>0\<close>.
\<close>

theorem logistic_l1_ratio_zero_rejected:
  "logistic_compute_on_sql_magic_mode elasticnet_l1_ratio_0 (Inr [0, 1, 1, 0]) (Inr [0, 0])
     = ([], Inl (ValueError ''l1_ratio must be between 0 and 1''))
   \<and> lr_l1_ratio elasticnet_l1_ratio_0 = Some 0"
  by (simp add: logistic_compute_on_sql_magic_mode_def elasticnet_l1_ratio_0_def
      truthy_class_weight_def truthy_def)

text \<open>
  When the response could be computed, the method either goes on to the solve or raises
  a ValueError, and it raises one only when a precondition fails or \<^verbatim>\<open>l1_ratio\<close> is
  \<open>0\<close> under an elastic-net penalty.
\<close>

lemma logistic_preconditions:
  "snd (logistic_compute_on_sql_magic_mode self (Inr ys) rest) = rest \<or>
   (\<exists>msg. snd (logistic_compute_on_sql_magic_mode self (Inr ys) rest) = Inl (ValueError msg)
      \<and> (truthy_class_weight (model_class_weight self)
          \<or> model_multi_class self = ''multinomial''
          \<or> lr_penalty self = ''elasticnet''
              \<and> (lr_l1_ratio self = None \<or> lr_l1_ratio self = Some 0
                  \<or> the (lr_l1_ratio self) < 0 \<or> 1 < the (lr_l1_ratio self))
          \<or> lr_intercept_scaling self \<noteq> 1
          \<or> nunique ys \<noteq> 2))"
  by (auto simp: logistic_compute_on_sql_magic_mode_def Let_def truthy_def split: option.splits)

subsection \<open>The system that the closed-form solve solves\<close>

lemma sequence_map_Inr:
  "(\<And>x. x \<in> set xs \<Longrightarrow> f x = Inr (g x)) \<Longrightarrow> sequence (map f xs) = Inr (map g xs)"
  by (induction xs) simp_all

lemma lookup_val: "s col \<noteq> None \<Longrightarrow> lookup s col = Inr (val s col)"
  by (auto simp: lookup_def val_def)

lemma lookups_val:
  "(\<And>col. col \<in> set cols \<Longrightarrow> s col \<noteq> None) \<Longrightarrow> lookups s cols = Inr (map (val s) cols)"
  unfolding lookups_def by (rule sequence_map_Inr) (rule lookup_val)




lemma symmetrize_map:
  assumes i: "i < n" and j: "j < n"
  shows "symmetrize_triangular (map g (triu_indices n)) =
           Inr (symmetric_of (upper n (map g (triu_indices n))))"
    and "square n (symmetric_of (upper n (map g (triu_indices n))))"
    and "symmetric_of (upper n (map g (triu_indices n))) ! i ! j = g (min i j, max i j)"
proof -
  have len: "length (map g (triu_indices n)) = length (triu_indices n)" by simp
  show "symmetrize_triangular (map g (triu_indices n)) =
           Inr (symmetric_of (upper n (map g (triu_indices n))))"
    using len by (rule symmetrize_triangular_Inr)
  show "square n (symmetric_of (upper n (map g (triu_indices n))))"
    using len i j by (rule symmetric_of_upper)
  have "(min i j, max i j) \<in> set (triu_indices n)"
    using i j by (simp add: set_triu_indices)
  then show "symmetric_of (upper n (map g (triu_indices n))) ! i ! j = g (min i j, max i j)"
    using symmetric_of_upper(2) [OF len i j] by (simp add: packed_at_map)
qed


lemma length_symmetric_of_upper:
  assumes "length vals = length (triu_indices n)"
  shows "length (symmetric_of (upper n vals)) = n"
proof -
  have "length (upper n vals) = n"
  proof (cases n)
    case 0
    then show ?thesis by (simp add: upper_def assign_all_def triu_indices_def zeros_def)
  next
    case (Suc k)
    then have "square n (upper n vals)" using upper_entries(1) [OF assms, of 0 0] by simp
    then show ?thesis by (simp add: square_def)
  qed
  then show ?thesis
    by (simp add: symmetric_of_def mat_sub_def mat_add_def mat_T_def diag_def diagonal_def)
qed







lemma square_mat_scale: "square k M \<Longrightarrow> square k (mat_scale a M)"
  by (simp add: square_def mat_scale_def)

lemma nth_mat_scale:
  "square k M \<Longrightarrow> i < k \<Longrightarrow> j < k \<Longrightarrow> mat_scale a M ! i ! j = a * M ! i ! j"
  by (simp add: square_def mat_scale_def)

lemma mat_add_entries:
  assumes "square k X" and "square k Y"
  shows "square k (mat_add X Y)"
    and "i < k \<Longrightarrow> j < k \<Longrightarrow> mat_add X Y ! i ! j = X ! i ! j + Y ! i ! j"
  unfolding mat_add_def using assms
  by (simp add: square_map2, simp add: nth_map2_map2 [where n = k])

lemma square_Nil: "square 0 M \<longleftrightarrow> M = []"
  by (auto simp: square_def)





lemma col_names_0: "x_col 0 = ''x0''" "xx_col 0 0 = ''x0x0''" "xy_col 0 = ''x0y''"
  by code_simp+

lemma cols1: "stats_columns (Suc 0) True = [''x0'', ''x0x0'', ''y'', ''x0y'']"
  by (simp add: stats_columns_def triu_indices_def col_names_0)

lemma clean_name_f: "clean_name ''f'' = ''f''"
  by code_simp



subsection \<open>The system that the normalised solve solves\<close>

lemma stats_columns_present:
  assumes "\<forall>col \<in> set (stats_columns n True). s col \<noteq> None"
  shows "s ''y'' \<noteq> None"
    and "i < n \<Longrightarrow> s (x_col i) \<noteq> None"
    and "i < n \<Longrightarrow> s (xy_col i) \<noteq> None"
    and "i \<le> j \<Longrightarrow> j < n \<Longrightarrow> s (xx_col i j) \<noteq> None"
proof -
  show "s ''y'' \<noteq> None" using assms by (simp add: stats_columns_def)
  show "s (x_col i) \<noteq> None" if "i < n" using assms that by (simp add: stats_columns_def)
  show "s (xy_col i) \<noteq> None" if "i < n" using assms that by (simp add: stats_columns_def)
  show "s (xx_col i j) \<noteq> None" if "i \<le> j" and "j < n"
  proof -
    have "(i, j) \<in> set (triu_indices n)" using that by (simp add: set_triu_indices)
    then have "xx_col i j \<in> set (map (\<lambda>(i, j). xx_col i j) (triu_indices n))"
      by (metis (mono_tags, lifting) case_prod_conv image_eqI set_map)
    then have "xx_col i j \<in> set (stats_columns n True)" by (simp add: stats_columns_def)
    with assms show ?thesis by blast
  qed
qed

lemma normalize_rows:
  assumes cols: "\<forall>col \<in> set (stats_columns n True). s col \<noteq> None"
  shows "sequence (map (\<lambda>i.
             bind (lookup s (xy_col i)) (\<lambda>xiy.
             bind (lookup s (x_col i)) (\<lambda>xi.
             bind (lookup s ''y'') (\<lambda>y.
             bind (sequence (map (\<lambda>j.
                     bind (lookup s (xx_col i j)) (\<lambda>xixj.
                     bind (lookup s (x_col i)) (\<lambda>xi.
                     bind (lookup s (x_col j)) (\<lambda>xj.
                     Inr (xixj - xi * xj))))) [i..<n]))
               (\<lambda>row. Inr (xiy - xi * y, row)))))) [0..<n])
         = Inr (map (\<lambda>i. (centred_x_t_y_entry s i,
                           map (\<lambda>j. centred_x_t_x_entry s (i, j)) [i..<n])) [0..<n])"
proof (rule sequence_map_Inr)
  fix i assume "i \<in> set [0..<n]"
  then have i: "i < n" by simp
  note p = stats_columns_present [OF cols]
  have inner: "sequence (map (\<lambda>j.
                     bind (lookup s (xx_col i j)) (\<lambda>xixj.
                     bind (lookup s (x_col i)) (\<lambda>xi.
                     bind (lookup s (x_col j)) (\<lambda>xj.
                     Inr (xixj - xi * xj))))) [i..<n])
        = Inr (map (\<lambda>j. centred_x_t_x_entry s (i, j)) [i..<n])"
  proof (rule sequence_map_Inr)
    fix j assume "j \<in> set [i..<n]"
    then have j: "i \<le> j" "j < n" by simp_all
    show "bind (lookup s (xx_col i j)) (\<lambda>xixj.
                     bind (lookup s (x_col i)) (\<lambda>xi.
                     bind (lookup s (x_col j)) (\<lambda>xj.
                     Inr (xixj - xi * xj)))) = Inr (centred_x_t_x_entry s (i, j))"
      using p(2) [OF i] p(2) [OF j(2)] p(4) [OF j]
      by (simp add: lookup_val bind_def centred_x_t_x_entry_def)
  qed
  show "bind (lookup s (xy_col i)) (\<lambda>xiy.
             bind (lookup s (x_col i)) (\<lambda>xi.
             bind (lookup s ''y'') (\<lambda>y.
             bind (sequence (map (\<lambda>j.
                     bind (lookup s (xx_col i j)) (\<lambda>xixj.
                     bind (lookup s (x_col i)) (\<lambda>xi.
                     bind (lookup s (x_col j)) (\<lambda>xj.
                     Inr (xixj - xi * xj))))) [i..<n]))
               (\<lambda>row. Inr (xiy - xi * y, row)))))
        = Inr (centred_x_t_y_entry s i, map (\<lambda>j. centred_x_t_x_entry s (i, j)) [i..<n])"
    unfolding inner using p(1) p(2) [OF i] p(3) [OF i]
    by (simp add: lookup_val bind_def centred_x_t_y_entry_def)
qed


lemma square_symmetric_of_upper:
  assumes "length vals = length (triu_indices n)"
  shows "square n (symmetric_of (upper n vals))"
proof (cases n)
  case 0
  then show ?thesis using length_symmetric_of_upper [OF assms] by (simp add: square_Nil)
next
  case (Suc k)
  then show ?thesis using symmetric_of_upper(1) [OF assms, of 0 0] by simp
qed

lemma diag_diagonal_entries:
  assumes "square n X"
  shows "square n (diag (diagonal X))"
    and "i < n \<Longrightarrow> j < n \<Longrightarrow> diag (diagonal X) ! i ! j = (if i = j then X ! i ! i else 0)"
  using assms length_diagonal [OF assms]
  by (simp add: square_diag, auto simp: nth_diag nth_diagonal)

text \<open>
  Claim C3. With \<^verbatim>\<open>fit_intercept\<close> and \<^verbatim>\<open>normalize\<close> both true,
  \<^verbatim>\<open>compute_ridge_coefs\<close> is \<^verbatim>\<open>compute_coef_for_normalize_ridge\<close>. On a row that has
  its columns, that function hands \<^verbatim>\<open>np.linalg.cond\<close> and \<^verbatim>\<open>np.linalg.solve\<close> the
  system \<open>A \<beta> = b\<close>, where \<open>b\<close> holds the centred moments
  \<open>stats[x\<^sub>i y] - stats[x\<^sub>i] stats[y]\<close>, the symmetric matrix \<open>X\<close> holds
  \<open>stats[x\<^sub>i x\<^sub>j] - stats[x\<^sub>i] stats[x\<^sub>j]\<close>, and \<open>A\<close> is \<open>X\<close>, plus \<open>alpha\<close> times the
  diagonal of \<open>X\<close> for a Ridge model (no division by \<^verbatim>\<open>n_obs\<close>). The row it returns
  is the solved coefficients after the intercept \<open>stats[y]\<close> minus the dot product of the
  coefficients with the feature means.
\<close>

theorem compute_coef_for_normalize_ridge_system:
  assumes cols: "\<forall>col \<in> set (stats_columns (length xs) True). s col \<noteq> None"
  shows "\<exists>X A b.
      length X = length xs \<and> length A = length xs \<and> length b = length xs
    \<and> (\<forall>i < length xs.
         b ! i = val s (xy_col i) - val s (x_col i) * val s ''y''
         \<and> length (X ! i) = length xs \<and> length (A ! i) = length xs
         \<and> (\<forall>j < length xs.
               X ! i ! j = val s (xx_col (min i j) (max i j)) - val s (x_col i) * val s (x_col j)
               \<and> A ! i ! j = X ! i ! j
                    + (if cls m = Ridge \<and> i = j then alpha m * X ! i ! i else 0)))
    \<and> compute_coef_for_normalize_ridge np s xs m =
        (case check_cond np A of
           (printed, Inl e) \<Rightarrow> (printed, Inl e)
         | (printed, Inr _) \<Rightarrow>
             (printed,
              bind (solve np A b) (\<lambda>coef.
              bind (dot coef (map (\<lambda>i. val s (x_col i)) [0..<length xs])) (\<lambda>d.
              data_frame ((val s ''y'' - d) # coef) (''intercept'' # map clean_name xs)))))
    \<and> (fit_intercept m \<and> normalize m \<longrightarrow>
         compute_ridge_coefs np (Series s) xs m = compute_coef_for_normalize_ridge np s xs m)
    \<and> (\<forall>coef. length coef = length xs \<longrightarrow>
         bind (dot coef (map (\<lambda>i. val s (x_col i)) [0..<length xs])) (\<lambda>d.
           data_frame ((val s ''y'' - d) # coef) (''intercept'' # map clean_name xs))
         = Inr (''intercept'' # map clean_name xs,
                (val s ''y'' - (\<Sum>i < length xs. coef ! i * val s (x_col i))) # coef))"
proof -
  let ?n = "length xs"
  let ?g = "centred_x_t_x_entry s"
  let ?X = "symmetric_of (upper ?n (map ?g (triu_indices ?n)))"
  let ?b = "map (centred_x_t_y_entry s) [0..<?n]"
  let ?D = "mat_scale (alpha m) (diag (diagonal ?X))"
  let ?A = "if cls m = Ridge then mat_add ?X ?D else ?X"
  note p = stats_columns_present [OF cols]
  have sqX: "square ?n ?X" by (rule square_symmetric_of_upper) simp
  have sqD: "square ?n ?D" using sqX by (intro square_mat_scale diag_diagonal_entries(1))
  have sqA: "square ?n ?A" using sqX sqD by (simp add: mat_add_entries(1))
  have eX: "?X ! i ! j = val s (xx_col (min i j) (max i j)) - val s (x_col i) * val s (x_col j)"
    if "i < ?n" and "j < ?n" for i j
    using symmetrize_map(3) [OF that, of ?g]
    by (simp add: centred_x_t_x_entry_def min_def max_def)
  have eA: "?A ! i ! j = ?X ! i ! j + (if cls m = Ridge \<and> i = j then alpha m * ?X ! i ! i else 0)"
    if "i < ?n" and "j < ?n" for i j
  proof -
    have "mat_add ?X ?D ! i ! j = ?X ! i ! j + alpha m * (if i = j then ?X ! i ! i else 0)"
      by (simp only: mat_add_entries(2) [OF sqX sqD that]
          nth_mat_scale [OF diag_diagonal_entries(1) [OF sqX] that, of "alpha m"]
          diag_diagonal_entries(2) [OF sqX that])
    then show ?thesis by (cases "cls m = Ridge"; cases "i = j") simp_all
  qed
  have elems: "concat (map snd (map (\<lambda>i. (centred_x_t_y_entry s i,
                  map (\<lambda>j. ?g (i, j)) [i..<?n])) [0..<?n]))
               = map ?g (triu_indices ?n)"
    using triu_indices_concat [of "\<lambda>i j. ?g (i, j)" ?n] by (simp add: o_def)
  have rhs: "map fst (map (\<lambda>i. (centred_x_t_y_entry s i,
                  map (\<lambda>j. ?g (i, j)) [i..<?n])) [0..<?n]) = ?b"
    by (simp add: o_def)
  have sy: "symmetrize_triangular (map ?g (triu_indices ?n)) = Inr ?X"
    by (rule symmetrize_triangular_Inr) simp
  have y: "(case s ''y'' of None \<Rightarrow> Inl AttributeError | Some y \<Rightarrow> Inr y) = Inr (val s ''y'')"
    using p(1) by (auto simp: val_def)
  have means: "lookups s (map x_col [0..<?n]) = Inr (map (\<lambda>i. val s (x_col i)) [0..<?n])"
  proof -
    have "lookups s (map x_col [0..<?n]) = Inr (map (val s) (map x_col [0..<?n]))"
      by (rule lookups_val) (use p(2) in auto)
    then show ?thesis by (simp add: o_def)
  qed
  have run: "compute_coef_for_normalize_ridge np s xs m =
        (case check_cond np ?A of
           (printed, Inl e) \<Rightarrow> (printed, Inl e)
         | (printed, Inr _) \<Rightarrow>
             (printed,
              bind (solve np ?A ?b) (\<lambda>coef.
              bind (dot coef (map (\<lambda>i. val s (x_col i)) [0..<?n])) (\<lambda>d.
              data_frame ((val s ''y'' - d) # coef) (''intercept'' # map clean_name xs)))))"
    unfolding compute_coef_for_normalize_ridge_def Let_def normalize_rows [OF cols] sum.case
      elems rhs sy y means
    by (simp add: bind_def split: prod.split sum.split)
  have dispatch: "compute_ridge_coefs np (Series s) xs m = compute_coef_for_normalize_ridge np s xs m"
    if "fit_intercept m \<and> normalize m"
    using that by (simp add: compute_ridge_coefs_def)
  have intercept: "bind (dot coef (map (\<lambda>i. val s (x_col i)) [0..<?n])) (\<lambda>d.
           data_frame ((val s ''y'' - d) # coef) (''intercept'' # map clean_name xs))
         = Inr (''intercept'' # map clean_name xs,
                (val s ''y'' - (\<Sum>i < ?n. coef ! i * val s (x_col i))) # coef)"
    if len: "length coef = ?n" for coef
  proof -
    have "sum_list (map2 (*) coef (map (\<lambda>i. val s (x_col i)) [0..<?n]))
          = (\<Sum>i < ?n. coef ! i * val s (x_col i))"
      using len by (simp add: sum_list_sum_nth atLeast0LessThan)
    then show ?thesis using len by (simp add: dot_def bind_def data_frame_def)
  qed
  show ?thesis
    apply (rule exI [of _ ?X], rule exI [of _ ?A], rule exI [of _ ?b])
    apply (intro conjI allI impI)
    subgoal using sqX by (simp add: square_def)
    subgoal using sqA by (simp add: square_def)
    subgoal by simp
    subgoal for i by (simp add: centred_x_t_y_entry_def)
    subgoal for i using sqX by (simp add: square_def)
    subgoal for i using sqA by (simp add: square_def)
    subgoal for i j by (rule eX)
    subgoal for i j by (rule eA)
    subgoal by (rule run)
    subgoal by (rule dispatch) simp
    subgoal for coef by (rule intercept)
    done
qed


lemma stats_raw_vals:
  "val stats_raw ''x0'' = 1" "val stats_raw ''x0x0'' = 3"
  "val stats_raw ''y'' = 3" "val stats_raw ''x0y'' = 7"
  by (simp_all add: val_def stats_raw_def)

text \<open>
  The theorem at a normalised ridge regression with \<open>alpha = 2\<close> on the row \<open>stats_raw\<close>:
  the matrix is \<open>2 + 2 * 2\<close>, the right-hand side \<open>4\<close>, and the coefficient \<open>2 / 3\<close>
  gives the intercept \<open>3 - 2 / 3\<close>.
\<close>

theorem compute_coef_for_normalize_ridge_system_witness:
  "\<exists>A b. A ! 0 ! 0 = (3 - 1 * 1) + 2 * (3 - 1 * 1) \<and> b ! 0 = 7 - 1 * 3
         \<and> length A = 1 \<and> length b = 1
         \<and> compute_ridge_coefs diagonal_linalg (Series stats_raw) [''f''] (ridge 2 True True)
            = (case check_cond diagonal_linalg A of
                 (printed :: unit warning list, Inl e) \<Rightarrow> (printed, Inl e)
               | (printed, Inr _) \<Rightarrow>
                   (printed,
                    bind (solve diagonal_linalg A b) (\<lambda>coef.
                    bind (dot coef [1]) (\<lambda>d.
                    data_frame ((3 - d) # coef) [''intercept'', ''f'']))))
         \<and> bind (dot [2 / 3] [1]) (\<lambda>d. data_frame ((3 - d) # [2 / 3]) [''intercept'', ''f''])
            = Inr ([''intercept'', ''f''], [3 - 2 / 3 * 1, 2 / 3])"
proof -
  let ?m = "ridge 2 True True"
  have m: "fit_intercept ?m = True" "normalize ?m = True" "cls ?m = Ridge" "alpha ?m = 2"
    by (simp_all add: ridge_def)
  have cols: "\<forall>col \<in> set (stats_columns (length [''f'']) True). stats_raw col \<noteq> None"
    by (simp add: cols1 stats_raw_def)
  have names: "''intercept'' # map clean_name [''f''] = [''intercept'', ''f'']"
    by (simp add: clean_name_f)
  have means: "map (\<lambda>i. val stats_raw (x_col i)) [0..<length [''f'']] = [1]"
    by (simp add: col_names_0 stats_raw_vals)
  from compute_coef_for_normalize_ridge_system [OF cols, where np = diagonal_linalg and m = ?m,
      unfolded names means stats_raw_vals m]
  obtain X A b where len: "length A = length [''f'']" "length b = length [''f'']"
    and ent: "\<forall>i < length [''f''].
         b ! i = val stats_raw (xy_col i) - val stats_raw (x_col i) * 3
         \<and> length (X ! i) = length [''f''] \<and> length (A ! i) = length [''f'']
         \<and> (\<forall>j < length [''f''].
               X ! i ! j = val stats_raw (xx_col (min i j) (max i j))
                             - val stats_raw (x_col i) * val stats_raw (x_col j)
               \<and> A ! i ! j = X ! i ! j
                    + (if Ridge = Ridge \<and> i = j then 2 * X ! i ! i else 0))"
    and run: "compute_coef_for_normalize_ridge diagonal_linalg stats_raw [''f''] ?m
            = (case check_cond diagonal_linalg A of
                 (printed :: unit warning list, Inl e) \<Rightarrow> (printed, Inl e)
               | (printed, Inr _) \<Rightarrow>
                   (printed,
                    bind (solve diagonal_linalg A b) (\<lambda>coef.
                    bind (dot coef [1]) (\<lambda>d.
                    data_frame ((3 - d) # coef) [''intercept'', ''f'']))))"
    and dispatch: "True \<and> True \<longrightarrow>
         compute_ridge_coefs diagonal_linalg (Series stats_raw) [''f''] ?m
         = (compute_coef_for_normalize_ridge diagonal_linalg stats_raw [''f''] ?m
              :: unit warning list \<times> _)"
    and intercept: "\<forall>coef. length coef = length [''f''] \<longrightarrow>
         bind (dot coef [1]) (\<lambda>d. data_frame ((3 - d) # coef) [''intercept'', ''f''])
         = Inr ([''intercept'', ''f''],
                (3 - (\<Sum>i < length [''f'']. coef ! i * val stats_raw (x_col i))) # coef)"
    by blast
  have b: "b ! 0 = 7 - 1 * 3"
    using ent by (simp add: stats_raw_vals col_names_0)
  have X: "X ! 0 ! 0 = 3 - 1 * 1"
    using ent by (simp add: stats_raw_vals col_names_0)
  have A: "A ! 0 ! 0 = (3 - 1 * 1) + 2 * (3 - 1 * 1)"
    using ent X by simp
  have i: "bind (dot [2 / 3] [1]) (\<lambda>d. data_frame ((3 - d) # [2 / 3]) [''intercept'', ''f''])
            = Inr ([''intercept'', ''f''], [3 - 2 / 3 * 1, 2 / 3])"
    using intercept [rule_format, of "[2 / 3]"] by (simp add: col_names_0 stats_raw_vals)
  show ?thesis
    using len b A run dispatch i by (intro exI [of _ A] exI [of _ b]) simp
qed

subsection \<open>The warning about the condition number\<close>














subsection \<open>Ridge regression without penalty\<close>









subsection \<open>Newton's method\<close>

lemma bind_Inr: "bind r f = Inr v \<longleftrightarrow> (\<exists>u. r = Inr u \<and> f u = Inr v)"
  by (cases r) (simp_all add: bind_def)

lemma nth_checked_Inr: "nth_checked xs i = Inr x \<longleftrightarrow> i < length xs \<and> x = xs ! i"
  by (auto simp: nth_checked_def)

lemma update_slices_step:
  assumes "update_slices np tol h j (i # rest) (coef, conv) = Inr out"
  shows "if conv ! i
         then update_slices np tol h j rest (coef, conv) = Inr out
         else (\<exists>delta largest row.
                 i < length h \<and> i < length j \<and> solve np (h ! i) (j ! i) = Inr delta
                 \<and> max_abs delta = Inr largest \<and> isub (coef ! i) delta = Inr row
                 \<and> update_slices np tol h j rest
                      (coef[i := row], if largest < tol then conv[i := True] else conv)
                    = Inr out)"
proof (cases "conv ! i")
  case True
  with assms show ?thesis by simp
next
  case False
  with assms show ?thesis
    by (simp add: bind_Inr nth_checked_Inr split del: if_split)
qed

lemma update_slices_length:
  "update_slices np tol h j rest (coef, conv) = Inr (coef', conv') \<Longrightarrow>
   length coef' = length coef \<and> length conv' = length conv"
proof (induction rest arbitrary: coef conv)
  case Nil
  then show ?case by simp
next
  case (Cons i rest)
  from update_slices_step [OF Cons.prems] show ?case
    by (auto split: if_splits dest!: Cons.IH)
qed

lemma update_slices_frame:
  assumes "update_slices np tol h j rest (coef, conv) = Inr (coef', conv')"
    and "k \<notin> set rest \<or> conv ! k"
  shows "coef' ! k = coef ! k \<and> conv' ! k = conv ! k"
  using assms
proof (induction rest arbitrary: coef conv)
  case Nil
  then show ?case by simp
next
  case (Cons i rest)
  show ?case
  proof (cases "conv ! i")
    case True
    with update_slices_step [OF Cons.prems(1)]
    have "update_slices np tol h j rest (coef, conv) = Inr (coef', conv')" by simp
    moreover have "k \<notin> set rest \<or> conv ! k" using Cons.prems(2) True by auto
    ultimately show ?thesis by (rule Cons.IH)
  next
    case False
    with update_slices_step [OF Cons.prems(1)]
    obtain largest row where
      run: "update_slices np tol h j rest
             (coef[i := row], if largest < tol then conv[i := True] else conv)
            = Inr (coef', conv')"
      by auto
    let ?conv = "if largest < tol then conv[i := True] else conv"
    have ki: "k \<noteq> i" using Cons.prems(2) False by auto
    then have "k \<notin> set rest \<or> ?conv ! k" using Cons.prems(2) by auto
    with run have "coef' ! k = coef[i := row] ! k \<and> conv' ! k = ?conv ! k" by (rule Cons.IH)
    with ki show ?thesis by simp
  qed
qed

lemma update_slices_slice:
  assumes "update_slices np tol h j rest (coef, conv) = Inr (coef', conv')"
    and "distinct rest" and "i \<in> set rest" and "\<not> conv ! i"
    and "i < length coef" and "length conv = length coef"
  shows "\<exists>delta largest.
           i < length h \<and> i < length j \<and> solve np (h ! i) (j ! i) = Inr delta
           \<and> max_abs delta = Inr largest \<and> isub (coef ! i) delta = Inr (coef' ! i)
           \<and> conv' ! i = (largest < tol)"
  using assms
proof (induction rest arbitrary: coef conv)
  case Nil
  then show ?case by simp
next
  case (Cons i0 rest)
  show ?case
  proof (cases "i = i0")
    case True
    with update_slices_step [OF Cons.prems(1)] Cons.prems(4)
    obtain delta largest row where
      s: "i < length h" "i < length j" "solve np (h ! i) (j ! i) = Inr delta"
        "max_abs delta = Inr largest" "isub (coef ! i) delta = Inr row"
      and run: "update_slices np tol h j rest
             (coef[i := row], if largest < tol then conv[i := True] else conv)
            = Inr (coef', conv')"
      by auto
    let ?conv = "if largest < tol then conv[i := True] else conv"
    have "i \<notin> set rest" using Cons.prems(2) True by simp
    then have "coef' ! i = coef[i := row] ! i \<and> conv' ! i = ?conv ! i"
      using update_slices_frame [OF run] by blast
    then have "coef' ! i = row \<and> conv' ! i = (largest < tol)"
      using Cons.prems(4,5,6) by simp
    with s show ?thesis by blast
  next
    case False
    then have mem: "i \<in> set rest" using Cons.prems(3) by simp
    have d: "distinct rest" using Cons.prems(2) by simp
    show ?thesis
    proof (cases "conv ! i0")
      case True
      with update_slices_step [OF Cons.prems(1)]
      have "update_slices np tol h j rest (coef, conv) = Inr (coef', conv')" by simp
      then show ?thesis using d mem Cons.prems(4,5,6) by (rule Cons.IH)
    next
      case F: False
      with update_slices_step [OF Cons.prems(1)]
      obtain largest row where
        run: "update_slices np tol h j rest
               (coef[i0 := row], if largest < tol then conv[i0 := True] else conv)
              = Inr (coef', conv')"
        by auto
      let ?conv = "if largest < tol then conv[i0 := True] else conv"
      have "\<exists>delta largest.
           i < length h \<and> i < length j \<and> solve np (h ! i) (j ! i) = Inr delta
           \<and> max_abs delta = Inr largest \<and> isub (coef[i0 := row] ! i) delta = Inr (coef' ! i)
           \<and> conv' ! i = (largest < tol)"
        using run d mem
      proof (rule Cons.IH)
        show "\<not> ?conv ! i" using False Cons.prems(4) by simp
        show "i < length (coef[i0 := row])" using Cons.prems(5) by simp
        show "length ?conv = length (coef[i0 := row])" using Cons.prems(6) by simp
      qed
      with False show ?thesis by simp
    qed
  qed
qed


lemma newton_pass_Inr:
  assumes "newton_pass np cb tol coef conv = Inr (coef', conv')"
  obtains h j where "hess cb coef conv = Inr h" and "grads cb coef conv = Inr j"
    and "update_slices np tol h j [0..<length coef] (coef, conv) = Inr (coef', conv')"
  using assms by (auto simp: newton_pass_def bind_Inr)

lemma newton_pass_length:
  assumes "newton_pass np cb tol coef conv = Inr (coef', conv')"
  shows "length coef' = length coef" and "length conv' = length conv"
  using assms by (auto elim!: newton_pass_Inr dest: update_slices_length)

lemma newton_pass_converged:
  assumes "newton_pass np cb tol coef conv = Inr (coef', conv')" and "conv ! i"
  shows "coef' ! i = coef ! i" and "conv' ! i"
  using assms by (auto elim!: newton_pass_Inr dest: update_slices_frame [where k = i])

lemma newton_pass_slice:
  assumes "newton_pass np cb tol coef conv = Inr (coef', conv')"
    and "i < length coef" and "length conv = length coef" and "\<not> conv ! i"
  shows "\<exists>h j delta largest.
           hess cb coef conv = Inr h \<and> grads cb coef conv = Inr j
           \<and> i < length h \<and> i < length j \<and> solve np (h ! i) (j ! i) = Inr delta
           \<and> max_abs delta = Inr largest \<and> isub (coef ! i) delta = Inr (coef' ! i)
           \<and> conv' ! i = (largest < tol)"
proof -
  from assms(1) obtain h j where hj: "hess cb coef conv = Inr h" "grads cb coef conv = Inr j"
    and u: "update_slices np tol h j [0..<length coef] (coef, conv) = Inr (coef', conv')"
    by (rule newton_pass_Inr)
  have "\<exists>delta largest.
           i < length h \<and> i < length j \<and> solve np (h ! i) (j ! i) = Inr delta
           \<and> max_abs delta = Inr largest \<and> isub (coef ! i) delta = Inr (coef' ! i)
           \<and> conv' ! i = (largest < tol)"
    using u _ _ assms(4,2,3) by (rule update_slices_slice) (use assms(2) in simp_all)
  with hj show ?thesis by blast
qed

lemma passes_newton_loop: "passes (newton_loop np cb tol conds k coef conv) \<le> k"
proof (induction k arbitrary: coef conv)
  case 0
  show ?case by simp
next
  case (Suc k)
  show ?case
  proof (cases "newton_pass np cb tol coef conv")
    case (Inl e)
    then show ?thesis by simp
  next
    case (Inr st)
    obtain coef' conv' where st: "st = (coef', conv')" by (cases st)
    show ?thesis using Inr st Suc.IH [of coef' conv'] by (simp add: Let_def)
  qed
qed

lemma newton_loop_Suc_cases:
  obtains (raised) e where "newton_pass np cb tol coef conv = Inl e"
      and "newton_loop np cb tol conds (Suc k) coef conv
           = \<lparr>passes = 1, flags = conv, warnings = [], outcome = Inl e\<rparr>"
  | (finished) coef' conv' where "newton_pass np cb tol coef conv = Inr (coef', conv')"
      and "list_all (\<lambda>done. done) conv'"
      and "newton_loop np cb tol conds (Suc k) coef conv
           = \<lparr>passes = 1, flags = conv', warnings = [], outcome = Inr coef'\<rparr>"
  | (more) coef' conv' where "newton_pass np cb tol coef conv = Inr (coef', conv')"
      and "\<not> list_all (\<lambda>done. done) conv'"
      and "newton_loop np cb tol conds (Suc k) coef conv
           = (newton_loop np cb tol conds k coef' conv')
               \<lparr>passes := Suc (passes (newton_loop np cb tol conds k coef' conv'))\<rparr>"
proof (cases "newton_pass np cb tol coef conv")
  case (Inl e)
  then show ?thesis by (intro raised [of e]) simp_all
next
  case (Inr st)
  obtain coef' conv' where st: "st = (coef', conv')" by (cases st)
  show ?thesis
  proof (cases "list_all (\<lambda>done. done) conv'")
    case True
    then show ?thesis using Inr st by (intro finished [of coef' conv']) simp_all
  next
    case False
    then show ?thesis using Inr st by (intro more [of coef' conv']) (simp_all add: Let_def)
  qed
qed

lemma newton_loop_keeps_converged:
  assumes "outcome (newton_loop np cb tol conds k coef conv) = Inr res" and "conv ! i"
  shows "res ! i = coef ! i \<and> flags (newton_loop np cb tol conds k coef conv) ! i"
  using assms
proof (induction k arbitrary: coef conv)
  case 0
  then show ?case by (simp split: if_splits)
next
  case (Suc k)
  show ?case
  proof (cases rule: newton_loop_Suc_cases [of np cb tol coef conv conds k])
    case (raised e)
    with Suc.prems show ?thesis by simp
  next
    case (finished coef' conv')
    with Suc.prems newton_pass_converged [OF finished(1) Suc.prems(2)] show ?thesis by simp
  next
    case (more coef' conv')
    have "outcome (newton_loop np cb tol conds k coef' conv') = Inr res"
      using Suc.prems(1) more(3) by simp
    then have "res ! i = coef' ! i \<and> flags (newton_loop np cb tol conds k coef' conv') ! i"
      using newton_pass_converged(2) [OF more(1) Suc.prems(2)] by (rule Suc.IH)
    then show ?thesis
      using newton_pass_converged(1) [OF more(1) Suc.prems(2)] more(3) by simp
  qed
qed

lemma max_abs_Inr: "max_abs delta = Inr l \<longleftrightarrow> delta \<noteq> [] \<and> l = Max (abs ` set delta)"
proof (cases delta)
  case Nil
  then show ?thesis by (simp add: max_abs_def)
next
  case (Cons d ds)
  have "fold max (map abs ds) \<bar>d\<bar> = Max (set (\<bar>d\<bar> # map abs ds))"
    by (simp only: Max.set_eq_fold)
  then show ?thesis using Cons by (auto simp: max_abs_def)
qed

lemma isub_same_length:
  "length delta = length row \<Longrightarrow> isub row delta = Inr (map2 (-) row delta)"
  by (simp add: isub_def)

lemma newton_loop_outcome:
  assumes "outcome (newton_loop np cb tol conds k coef conv) = Inr res"
    and "length conv = length coef"
  shows "(warnings (newton_loop np cb tol conds k coef conv) = []
          \<and> list_all (\<lambda>d. d) (flags (newton_loop np cb tol conds k coef conv))
          \<and> 1 \<le> passes (newton_loop np cb tol conds k coef conv))
       \<or> (passes (newton_loop np cb tol conds k coef conv) = k
          \<and> warnings (newton_loop np cb tol conds k coef conv)
              = [not_converged_warning (length coef) conds
                   (flags (newton_loop np cb tol conds k coef conv))]
          \<and> (k = 0 \<or> \<not> list_all (\<lambda>d. d) (flags (newton_loop np cb tol conds k coef conv)))
          \<and> (k = 0 \<longrightarrow> flags (newton_loop np cb tol conds k coef conv) = conv))"
  using assms
proof (induction k arbitrary: coef conv)
  case 0
  then show ?case by (auto simp: not_converged_warning_def split: if_splits)
next
  case (Suc k)
  show ?case
  proof (cases rule: newton_loop_Suc_cases [of np cb tol coef conv conds k])
    case (raised e)
    with Suc.prems show ?thesis by simp
  next
    case (finished coef' conv')
    then show ?thesis by simp
  next
    case (more coef' conv')
    let ?r = "newton_loop np cb tol conds k coef' conv'"
    have o: "outcome ?r = Inr res" using Suc.prems(1) more(3) by simp
    have l: "length conv' = length coef'" "length coef' = length coef"
      using newton_pass_length [OF more(1)] Suc.prems(2) by simp_all
    from Suc.IH [OF o l(1)] show ?thesis
      using more(2,3) l(2) by auto
  qed
qed

lemma after_passes_Suc_Inr:
  "newton_pass np cb tol coef conv = Inr (coef', conv') \<Longrightarrow>
   after_passes np cb tol (Suc n) coef conv = after_passes np cb tol n coef' conv'"
  by (simp add: bind_def)

lemma newton_loop_after_passes:
  assumes "outcome (newton_loop np cb tol conds k coef conv) = Inr res"
  shows "after_passes np cb tol (passes (newton_loop np cb tol conds k coef conv)) coef conv
           = Inr (res, flags (newton_loop np cb tol conds k coef conv))
    \<and> (\<forall>n. 1 \<le> n \<and> n < passes (newton_loop np cb tol conds k coef conv) \<longrightarrow>
          (\<exists>c v. after_passes np cb tol n coef conv = Inr (c, v) \<and> \<not> list_all (\<lambda>d. d) v))"
  using assms
proof (induction k arbitrary: coef conv)
  case 0
  then show ?case by (auto split: if_splits)
next
  case (Suc k)
  show ?case
  proof (cases rule: newton_loop_Suc_cases [of np cb tol coef conv conds k])
    case (raised e)
    with Suc.prems show ?thesis by simp
  next
    case (finished coef' conv')
    with Suc.prems show ?thesis by (simp add: bind_def)
  next
    case (more coef' conv')
    let ?r = "newton_loop np cb tol conds k coef' conv'"
    have o: "outcome ?r = Inr res" using Suc.prems more(3) by simp
    note IH = Suc.IH [OF o]
    have a: "after_passes np cb tol (Suc (passes ?r)) coef conv = Inr (res, flags ?r)"
      using IH by (simp only: after_passes_Suc_Inr [OF more(1)])
    have b: "\<exists>c v. after_passes np cb tol n coef conv = Inr (c, v) \<and> \<not> list_all (\<lambda>d. d) v"
      if n: "1 \<le> n \<and> n < Suc (passes ?r)" for n
    proof (cases n)
      case 0
      with n show ?thesis by simp
    next
      case (Suc n')
      show ?thesis
      proof (cases n')
        case 0
        then show ?thesis using Suc more(1,2) by (simp add: bind_def)
      next
        case S: (Suc n'')
        then have "1 \<le> n' \<and> n' < passes ?r" using n Suc by simp
        with IH show ?thesis unfolding Suc after_passes_Suc_Inr [OF more(1)] by blast
      qed
    qed
    show ?thesis unfolding more(3) using a b by simp
  qed
qed

lemma newton_loop_returns:
  assumes "after_passes np cb tol n coef conv = Inr (c, v)"
    and "(1 \<le> n \<and> n \<le> k \<and> list_all (\<lambda>d. d) v)
         \<or> (n = k \<and> (length coef = 1 \<or> length conds = length coef)
            \<and> length conv = length coef)"
  shows "\<exists>res. outcome (newton_loop np cb tol conds k coef conv) = Inr res"
  using assms
proof (induction k arbitrary: n coef conv)
  case 0
  then show ?case by auto
next
  case (Suc k)
  from Suc.prems(2) obtain n' where n: "n = Suc n'" by (cases n) auto
  show ?case
  proof (cases rule: newton_loop_Suc_cases [of np cb tol coef conv conds k])
    case (raised e)
    with Suc.prems(1) show ?thesis unfolding n by (simp add: bind_def)
  next
    case (finished coef' conv')
    then show ?thesis by simp
  next
    case (more coef' conv')
    have l: "length conv' = length conv" "length coef' = length coef"
      using newton_pass_length [OF more(1)] by simp_all
    have a: "after_passes np cb tol n' coef' conv' = Inr (c, v)"
      using Suc.prems(1) unfolding n by (simp only: after_passes_Suc_Inr [OF more(1)])
    have "n' = 0 \<longrightarrow> v = conv'" using a by auto
    then have "(1 \<le> n' \<and> n' \<le> k \<and> list_all (\<lambda>d. d) v)
         \<or> (n' = k \<and> (length coef' = 1 \<or> length conds = length coef')
            \<and> length conv' = length coef')"
      using Suc.prems(2) more(2) l unfolding n by (cases n') auto
    with a have "\<exists>res. outcome (newton_loop np cb tol conds k coef' conv') = Inr res"
      by (rule Suc.IH)
    then show ?thesis using more(3) by simp
  qed
qed

lemma newton_loop_raises_at:
  assumes "outcome (newton_loop np cb tol conds k coef conv) = Inl e"
    and "length coef = 1 \<or> length conds = length coef" and "length conv = length coef"
  shows "\<exists>n c v. n < k \<and> after_passes np cb tol n coef conv = Inr (c, v)
           \<and> newton_pass np cb tol c v = Inl e"
  using assms
proof (induction k arbitrary: coef conv)
  case 0
  then show ?case by (auto split: if_splits)
next
  case (Suc k)
  show ?case
  proof (cases rule: newton_loop_Suc_cases [of np cb tol coef conv conds k])
    case (raised e')
    with Suc.prems(1) have "newton_pass np cb tol coef conv = Inl e" by simp
    then have "0 < Suc k \<and> after_passes np cb tol 0 coef conv = Inr (coef, conv)
           \<and> newton_pass np cb tol coef conv = Inl e" by simp
    then show ?thesis by blast
  next
    case (finished coef' conv')
    with Suc.prems show ?thesis by simp
  next
    case (more coef' conv')
    let ?r = "newton_loop np cb tol conds k coef' conv'"
    have o: "outcome ?r = Inl e" using Suc.prems(1) more(3) by simp
    have l: "length conv' = length coef'" "length coef' = length coef"
      using newton_pass_length [OF more(1)] Suc.prems(3) by simp_all
    have "\<exists>n c v. n < k \<and> after_passes np cb tol n coef' conv' = Inr (c, v)
           \<and> newton_pass np cb tol c v = Inl e"
      using o _ l(1) by (rule Suc.IH) (use Suc.prems(2) l(2) in simp)
    then obtain n c v where "n < k" "after_passes np cb tol n coef' conv' = Inr (c, v)"
      "newton_pass np cb tol c v = Inl e" by blast
    then have "Suc n < Suc k \<and> after_passes np cb tol (Suc n) coef conv = Inr (c, v)
           \<and> newton_pass np cb tol c v = Inl e"
      by (simp only: after_passes_Suc_Inr [OF more(1)] Suc_less_eq simp_thms)
    then show ?thesis by blast
  qed
qed

lemma newton_pass_spec:
  assumes p: "newton_pass np cb tol c v = Inr (c', v')" and l: "length v = length c"
  shows "length c' = length c \<and> length v' = length c
    \<and> (\<forall>i < length c.
          if v ! i then c' ! i = c ! i \<and> v' ! i
          else (\<exists>h j delta.
                  hess cb c v = Inr h \<and> grads cb c v = Inr j
                  \<and> i < length h \<and> i < length j \<and> solve np (h ! i) (j ! i) = Inr delta
                  \<and> delta \<noteq> [] \<and> isub (c ! i) delta = Inr (c' ! i)
                  \<and> v' ! i = (Max (abs ` set delta) < tol)))
    \<and> (list_all (\<lambda>d. d) v' \<longrightarrow>
         (\<forall>k. newton_loop np cb tol conds (Suc k) c v
                = \<lparr>passes = 1, flags = v', warnings = [], outcome = Inr c'\<rparr>))"
proof (intro conjI allI impI)
  show "length c' = length c" using p by (rule newton_pass_length)
  show "length v' = length c" using newton_pass_length(2) [OF p] l by simp
  show "newton_loop np cb tol conds (Suc k) c v
          = \<lparr>passes = 1, flags = v', warnings = [], outcome = Inr c'\<rparr>"
    if "list_all (\<lambda>d. d) v'" for k
    using p that by simp
  fix i assume i: "i < length c"
  show "if v ! i then c' ! i = c ! i \<and> v' ! i
          else (\<exists>h j delta.
                  hess cb c v = Inr h \<and> grads cb c v = Inr j
                  \<and> i < length h \<and> i < length j \<and> solve np (h ! i) (j ! i) = Inr delta
                  \<and> delta \<noteq> [] \<and> isub (c ! i) delta = Inr (c' ! i)
                  \<and> v' ! i = (Max (abs ` set delta) < tol))"
  proof (cases "v ! i")
    case True
    then show ?thesis using newton_pass_converged [OF p] by simp
  next
    case False
    from newton_pass_slice [OF p i l False] show ?thesis
      using False by (auto simp: max_abs_Inr)
  qed
qed

text \<open>
  Claim C8, as the code has it. \<^verbatim>\<open>newtons_method\<close> begins at most \<^verbatim>\<open>max_iter\<close>
  passes. A pass that does not raise leaves every converged slice as it is and, for every
  other slice, solves \<open>Hessian * delta = gradient\<close>, subtracts \<open>delta\<close> from the
  coefficients and marks the slice converged exactly when the largest absolute entry of
  \<open>delta\<close> is below \<^verbatim>\<open>tol\<close>; when a pass leaves all slices converged the method
  returns its coefficients at once, with no warning.

  What the method returns is an iterate: the coefficients after exactly \<open>passes\<close> passes
  from the start, where no earlier pass left all slices converged. Without a warning
  that is the first iterate with all slices converged; with a warning it is the iterate
  after \<^verbatim>\<open>max_iter\<close> passes, the last one, and the warning is the only one: it shows the
  unconverged entries of \<^verbatim>\<open>conds\<close> when the number of slices is not 1, and is the plain
  \<^verbatim>\<open>Optimization didn't converge!\<close> for a single slice.

  The method returns, and does not raise, whenever some pass up to \<^verbatim>\<open>max_iter\<close> leaves
  all slices converged, and whenever \<^verbatim>\<open>max_iter\<close> passes run without an exception (given
  as many \<^verbatim>\<open>conds\<close> as slices, or a single slice). Under that proviso an exception of
  the method is that of a callback or of the solve in a pass that the loop reached.
\<close>

theorem newtons_method_passes:
  assumes r: "r = newtons_method np coef cb tol max_iter' conds"
  shows "passes r \<le> nat max_iter'
    \<and> (\<forall>res. outcome r = Inr res \<longrightarrow>
         after_passes np cb tol (passes r) coef (replicate (length coef) False)
           = Inr (res, flags r)
         \<and> (\<forall>n. 1 \<le> n \<and> n < passes r \<longrightarrow>
               (\<exists>c v. after_passes np cb tol n coef (replicate (length coef) False) = Inr (c, v)
                      \<and> \<not> list_all (\<lambda>d. d) v))
         \<and> (if warnings r = []
            then 1 \<le> passes r \<and> list_all (\<lambda>d. d) (flags r)
            else passes r = nat max_iter'
                 \<and> warnings r = [not_converged_warning (length coef) conds (flags r)]
                 \<and> (max_iter' \<le> 0 \<or> \<not> list_all (\<lambda>d. d) (flags r))))
    \<and> (\<forall>n c v. after_passes np cb tol n coef (replicate (length coef) False) = Inr (c, v)
           \<and> ((1 \<le> n \<and> n \<le> nat max_iter' \<and> list_all (\<lambda>d. d) v)
              \<or> (n = nat max_iter' \<and> (length coef = 1 \<or> length conds = length coef)))
         \<longrightarrow> (\<exists>res. outcome r = Inr res))
    \<and> (\<forall>e. outcome r = Inl e \<and> (length coef = 1 \<or> length conds = length coef) \<longrightarrow>
         (\<exists>n c v. n < nat max_iter'
            \<and> after_passes np cb tol n coef (replicate (length coef) False) = Inr (c, v)
            \<and> newton_pass np cb tol c v = Inl e))
    \<and> (\<forall>c v c' v'. newton_pass np cb tol c v = Inr (c', v') \<and> length v = length c \<longrightarrow>
         length c' = length c \<and> length v' = length c
         \<and> (\<forall>i < length c.
               if v ! i then c' ! i = c ! i \<and> v' ! i
               else (\<exists>h j delta.
                       hess cb c v = Inr h \<and> grads cb c v = Inr j
                       \<and> i < length h \<and> i < length j \<and> solve np (h ! i) (j ! i) = Inr delta
                       \<and> delta \<noteq> [] \<and> isub (c ! i) delta = Inr (c' ! i)
                       \<and> v' ! i = (Max (abs ` set delta) < tol)))
         \<and> (list_all (\<lambda>d. d) v' \<longrightarrow>
              (\<forall>k. newton_loop np cb tol conds (Suc k) c v
                     = \<lparr>passes = 1, flags = v', warnings = [], outcome = Inr c'\<rparr>)))"
proof (intro conjI allI impI)
  let ?init = "replicate (length coef) False"
  let ?r = "newton_loop np cb tol conds (nat max_iter') coef ?init"
  have r': "r = ?r" using r by (simp add: newtons_method_def)
  show "passes r \<le> nat max_iter'" unfolding r' by (rule passes_newton_loop)
  show "after_passes np cb tol (passes r) coef ?init = Inr (res, flags r)"
    if "outcome r = Inr res" for res
    using newton_loop_after_passes [of np cb tol conds "nat max_iter'" coef ?init res] that
    unfolding r' by blast
  show "\<exists>c v. after_passes np cb tol n coef ?init = Inr (c, v) \<and> \<not> list_all (\<lambda>d. d) v"
    if "outcome r = Inr res" and "1 \<le> n \<and> n < passes r" for res n
    using newton_loop_after_passes [of np cb tol conds "nat max_iter'" coef ?init res] that
    unfolding r' by blast
  show "if warnings r = []
          then 1 \<le> passes r \<and> list_all (\<lambda>d. d) (flags r)
          else passes r = nat max_iter'
               \<and> warnings r = [not_converged_warning (length coef) conds (flags r)]
               \<and> (max_iter' \<le> 0 \<or> \<not> list_all (\<lambda>d. d) (flags r))"
    if "outcome r = Inr res" for res
    using newton_loop_outcome [of np cb tol conds "nat max_iter'" coef ?init res] that
    unfolding r' by auto
  show "\<exists>res. outcome r = Inr res"
    if "after_passes np cb tol n coef ?init = Inr (c, v)
           \<and> ((1 \<le> n \<and> n \<le> nat max_iter' \<and> list_all (\<lambda>d. d) v)
              \<or> (n = nat max_iter' \<and> (length coef = 1 \<or> length conds = length coef)))"
    for n c v
    unfolding r'
    by (rule newton_loop_returns [of np cb tol n coef ?init c v]) (use that in auto)
  show "\<exists>n c v. n < nat max_iter'
            \<and> after_passes np cb tol n coef ?init = Inr (c, v)
            \<and> newton_pass np cb tol c v = Inl e"
    if "outcome r = Inl e \<and> (length coef = 1 \<or> length conds = length coef)" for e
    using newton_loop_raises_at [of np cb tol conds "nat max_iter'" coef ?init e] that
    unfolding r' by auto
next
  fix c v c' v'
  assume "newton_pass np cb tol c v = Inr (c', v') \<and> length v = length c"
  then have p: "newton_pass np cb tol c v = Inr (c', v')" and l: "length v = length c"
    by simp_all
  note s = newton_pass_spec [OF p l, of conds]
  show "length c' = length c" using s by blast
  show "length v' = length c" using s by blast
  show "if v ! i then c' ! i = c ! i \<and> v' ! i
               else (\<exists>h j delta.
                       hess cb c v = Inr h \<and> grads cb c v = Inr j
                       \<and> i < length h \<and> i < length j \<and> solve np (h ! i) (j ! i) = Inr delta
                       \<and> delta \<noteq> [] \<and> isub (c ! i) delta = Inr (c' ! i)
                       \<and> v' ! i = (Max (abs ` set delta) < tol))"
    if "i < length c" for i
    using s that by blast
  show "newton_loop np cb tol conds (Suc k) c v
                     = \<lparr>passes = 1, flags = v', warnings = [], outcome = Inr c'\<rparr>"
    if "list_all (\<lambda>d. d) v'" for k
    using s that by blast
qed

text \<open>
  Claim C10. In any pass of the loop, for a slice that is not yet converged and whose
  step \<open>delta\<close> has all its entries below \<^verbatim>\<open>tol\<close> in absolute value: if the method
  returns, the slice is flagged as converged and its returned coefficients are those of
  the start of that pass minus \<open>delta\<close>; the last step is applied, and no later pass
  changes the slice. \<^verbatim>\<open>newtons_method\<close> is this loop from flags that are all false.
\<close>

theorem converging_step_is_applied:
  assumes out: "outcome (newton_loop np cb tol conds (Suc k) coef conv) = Inr res"
    and i: "i < length coef" and l: "length conv = length coef" and open_slice: "\<not> conv ! i"
    and h: "hess cb coef conv = Inr h" and j: "grads cb coef conv = Inr j"
    and delta: "solve np (h ! i) (j ! i) = Inr delta"
    and small: "Max (abs ` set delta) < tol"
  shows "isub (coef ! i) delta = Inr (res ! i)
    \<and> flags (newton_loop np cb tol conds (Suc k) coef conv) ! i
    \<and> (length delta = length (coef ! i) \<longrightarrow> res ! i = map2 (-) (coef ! i) delta)
    \<and> newtons_method np coef cb tol (1 + int k) conds
        = newton_loop np cb tol conds (Suc k) coef (replicate (length coef) False)"
proof -
  have pass: "isub (coef ! i) delta = Inr (coef' ! i) \<and> conv' ! i"
    if p: "newton_pass np cb tol coef conv = Inr (coef', conv')" for coef' conv'
    using newton_pass_slice [OF p i l open_slice] h j delta small
    by (auto simp: max_abs_Inr)
  have main: "isub (coef ! i) delta = Inr (res ! i)
    \<and> flags (newton_loop np cb tol conds (Suc k) coef conv) ! i"
  proof (cases rule: newton_loop_Suc_cases [of np cb tol coef conv conds k])
    case (raised e)
    with out show ?thesis by simp
  next
    case (finished coef' conv')
    with out pass [OF finished(1)] show ?thesis by simp
  next
    case (more coef' conv')
    have "outcome (newton_loop np cb tol conds k coef' conv') = Inr res"
      using out more(3) by simp
    from newton_loop_keeps_converged [OF this, of i] pass [OF more(1)] more(3)
    show ?thesis by simp
  qed
  moreover have "res ! i = map2 (-) (coef ! i) delta" if "length delta = length (coef ! i)"
    using main isub_same_length [OF that] by simp
  moreover have "newtons_method np coef cb tol (1 + int k) conds
        = newton_loop np cb tol conds (Suc k) coef (replicate (length coef) False)"
    by (simp add: newtons_method_def nat_add_distrib)
  ultimately show ?thesis by blast
qed


text \<open>
  The theorem at two slices and three passes of \<open>stuck\<close>, where every step is 1: the
  three iterates are computed pass by pass, none has all its slices converged, and so the
  method returns the third one, \<open>[[-3], [0]]\<close>, with the warning that names both groups.
\<close>

theorem newtons_method_passes_witness:
  "outcome (newtons_method diagonal_linalg [[0], [3]] stuck (1 / 10000) 3 [''US'', ''UK''])
     = Inr [[- 3], [0]]
   \<and> passes (newtons_method diagonal_linalg [[0], [3]] stuck (1 / 10000) 3 [''US'', ''UK'']) = 3
   \<and> flags (newtons_method diagonal_linalg [[0], [3]] stuck (1 / 10000) 3 [''US'', ''UK''])
       = [False, False]
   \<and> warnings (newtons_method diagonal_linalg [[0], [3]] stuck (1 / 10000) 3 [''US'', ''UK''])
       = [NotConvergedForSlice [''US'', ''UK'']]"
proof -
  let ?c = "[[0], [3]] :: real list list"
  let ?conds = "[''US'', ''UK'']"
  let ?r = "newtons_method diagonal_linalg ?c stuck (1 / 10000) 3 ?conds"
  let ?i = "replicate (length ?c) False"
  have a: "after_passes diagonal_linalg stuck (1 / 10000) 1 ?c ?i
             = Inr ([[- 1], [2]], [False, False])"
    "after_passes diagonal_linalg stuck (1 / 10000) 2 ?c ?i
             = Inr ([[- 2], [1]], [False, False])"
    "after_passes diagonal_linalg stuck (1 / 10000) 3 ?c ?i
             = Inr ([[- 3], [0]], [False, False])"
    by code_simp+
  have w: "not_converged_warning (length ?c) ?conds [False, False]
           = NotConvergedForSlice [''US'', ''UK'']"
    by code_simp
  note t = newtons_method_passes [OF refl, of diagonal_linalg ?c stuck "1 / 10000" 3 ?conds]
  have n3: "nat 3 = 3" by simp
  have "after_passes diagonal_linalg stuck (1 / 10000) 3 ?c ?i = Inr ([[- 3], [0]], [False, False])
        \<and> ((1 \<le> (3 :: nat) \<and> (3 :: nat) \<le> nat 3 \<and> list_all (\<lambda>d. d) [False, False])
           \<or> ((3 :: nat) = nat 3 \<and> (length ?c = 1 \<or> length ?conds = length ?c)))"
    using a(3) by simp
  then have "\<exists>res. outcome ?r = Inr res"
    by (rule t [THEN conjunct2, THEN conjunct2, THEN conjunct1, rule_format])
  then obtain res where res: "outcome ?r = Inr res" ..
  note u = t [THEN conjunct2, THEN conjunct1, rule_format, OF res]
  have A: "after_passes diagonal_linalg stuck (1 / 10000) (passes ?r) ?c ?i
                    = Inr (res, flags ?r)"
    by (rule u [THEN conjunct1])
  have W: "if warnings ?r = []
            then 1 \<le> passes ?r \<and> list_all (\<lambda>d. d) (flags ?r)
            else passes ?r = nat 3
                 \<and> warnings ?r = [not_converged_warning (length ?c) ?conds (flags ?r)]
                 \<and> ((3 :: int) \<le> 0 \<or> \<not> list_all (\<lambda>d. d) (flags ?r))"
    by (rule u [THEN conjunct2, THEN conjunct2])
  have P: "passes ?r \<le> nat 3"
    by (rule t [THEN conjunct1])
  have ne: "warnings ?r \<noteq> []"
  proof
    assume e: "warnings ?r = []"
    with W have f: "1 \<le> passes ?r" "list_all (\<lambda>d. d) (flags ?r)" by simp_all
    with P have "passes ?r = 1 \<or> passes ?r = 2 \<or> passes ?r = 3" by auto
    then have "flags ?r = [False, False]" using A a by auto
    with f(2) show False by simp
  qed
  with W have p: "passes ?r = 3"
    and wr: "warnings ?r = [not_converged_warning (length ?c) ?conds (flags ?r)]"
    by simp_all
  from A a(3) have o: "res = [[- 3], [0]]" "flags ?r = [False, False]" unfolding p by simp_all
  show ?thesis using res o p wr w by simp
qed

text \<open>
  Claim C8 as stated fails for a single slice: after two passes of \<open>stuck\<close> on the one
  slice of the group \<^verbatim>\<open>'US'\<close>, the warning is the plain one and does not name the
  group.
\<close>

theorem newtons_method_single_slice_counterexample:
  "newtons_method diagonal_linalg [[0]] stuck (1 / 10000) 2 [''US'']
     = \<lparr>passes = 2, flags = [False], warnings = [NotConverged], outcome = Inr [[- 2]]\<rparr>
   \<and> [NotConverged] \<noteq> [NotConvergedForSlice [''US'']]"
proof -
  have "newtons_method diagonal_linalg [[0]] stuck (1 / 10000) 2 [''US'']
     = \<lparr>passes = 2, flags = [False], warnings = [NotConverged], outcome = Inr [[- 2]]\<rparr>"
    by code_simp
  then show ?thesis by simp
qed

text \<open>
  The theorem at one slice of \<open>quadratic\<close> that starts at 2.99999 with a tolerance of
  0.0001: the step of -0.00001 is below the tolerance and is applied, so that the method
  returns 3.
\<close>

theorem converging_step_is_applied_witness:
  "isub [299999 / 100000] [- (1 / 100000)] = Inr ([[3]] ! 0)
   \<and> flags (newton_loop diagonal_linalg quadratic (1 / 10000) [''US''] (Suc 0)
              [[299999 / 100000]] [False]) ! 0
   \<and> [[3]] ! 0 = map2 (-) [299999 / 100000] [- (1 / 100000) :: real]
   \<and> outcome (newtons_method diagonal_linalg [[299999 / 100000]] quadratic (1 / 10000) 1
                [''US'']) = Inr [[3]]"
proof -
  let ?c = "[[299999 / 100000 :: real]]"
  have out: "outcome (newton_loop diagonal_linalg quadratic (1 / 10000) [''US''] (Suc 0)
              ?c [False]) = Inr [[3]]"
    by code_simp
  have i: "0 < length ?c" "length [False] = length ?c" "\<not> [False] ! 0" by simp_all
  have h: "hess quadratic ?c [False] = Inr [[[1]]]" by code_simp
  have j: "grads quadratic ?c [False] = Inr [[- (1 / 100000)]]" by code_simp
  have d: "solve diagonal_linalg ([[[1]]] ! 0) ([[- (1 / 100000)]] ! 0) = Inr [- (1 / 100000)]"
    by code_simp
  have small: "Max (abs ` set [- (1 / 100000) :: real]) < 1 / 10000" by simp
  have m: "newtons_method diagonal_linalg ?c quadratic (1 / 10000) 1 [''US'']
           = newton_loop diagonal_linalg quadratic (1 / 10000) [''US''] (Suc 0) ?c [False]"
    by (simp add: newtons_method_def)
  show ?thesis
    using converging_step_is_applied [OF out i h j d small] out m by simp
qed

end
